theory Spec2Isabelle
  imports Main "HOL-Library.Multiset" "HOL-Library.Sublist"
begin

section \<open>Data model of \<^verbatim>\<open>src/tails/engine.ts\<close>\<close>

text \<open>
  The engine classifies a source tree. A \<^verbatim>\<open>Record<string, T>\<close> object is a plain
  JavaScript object: the partial map of its own properties (\<open>string \<rightharpoonup> T\<close>), read through
  \<open>getProp\<close>, which also sees what every plain object inherits from
  \<^verbatim>\<open>Object.prototype\<close>. An optional field is an \<open>option\<close>; a string is falsy iff it is
  empty; every \<^verbatim>\<open>throw\<close> is a value of the type \<open>error\<close>. The source throws plain \<^verbatim>\<open>Error\<close>
  objects that differ in their message only; each message has its own constructor here:
  \<^item> \<open>InvalidRuleSet n p\<close>: "Framework n has unkonwn parent p" (the constructor);
  \<^item> \<open>AmbiguousRuntime\<close>: "More than one runtime matched codebase" (\<^verbatim>\<open>detect\<close>);
  \<^item> \<open>AmbiguousFramework leaves\<close>: "Matched multiple frameworks that are not known to
    embed each other: ..." (\<^verbatim>\<open>match\<close>);
  \<^item> \<open>ENOENT\<close>: the error of \<^verbatim>\<open>MockFileSystem.read\<close>, whose \<^verbatim>\<open>code\<close> is "ENOENT";
  \<^item> \<open>TypeError\<close>: what JavaScript raises when a property of \<^verbatim>\<open>undefined\<close> is read,
    \<^verbatim>\<open>undefined\<close> is iterated, or a value that is no function is called;
  \<^item> \<open>NotARule\<close>: no error of the source, see \<open>matchHelper\<close>.
\<close>

datatype error =
    InvalidRuleSet string string
  | AmbiguousRuntime
  | AmbiguousFramework "string list"
  | ENOENT
  | TypeError
  | NotARule

subsection \<open>Plain objects used as dictionaries\<close>

text \<open>
  The names of the properties of \<^verbatim>\<open>Object.prototype\<close>. Each is a function, but
  \<^verbatim>\<open>__proto__\<close>, an accessor that gives the prototype object; all of them are truthy, and
  none has a method \<^verbatim>\<open>push\<close> or \<^verbatim>\<open>map\<close>.
\<close>

definition objectPrototype :: "string list" where
  "objectPrototype =
     [''constructor'', ''hasOwnProperty'', ''isPrototypeOf'', ''propertyIsEnumerable'',
      ''toLocaleString'', ''toString'', ''valueOf'', ''__defineGetter__'',
      ''__defineSetter__'', ''__lookupGetter__'', ''__lookupSetter__'', ''__proto__'']"

text \<open>
  \<^verbatim>\<open>obj[k]\<close> for a plain object with the own properties \<open>obj\<close>: the own property, else the
  inherited one, else \<^verbatim>\<open>undefined\<close>. \<^verbatim>\<open>k in obj\<close> is true unless the result is \<open>Undefined\<close>.
\<close>

datatype 'a lookup = Own 'a | Inherited | Undefined

definition getProp :: "(string \<rightharpoonup> 'a) \<Rightarrow> string \<Rightarrow> 'a lookup" where
  "getProp obj k =
     (case obj k of
        Some v \<Rightarrow> Own v
      | None \<Rightarrow> if k \<in> set objectPrototype then Inherited else Undefined)"

subsection \<open>The records of the engine\<close>

record Codebase =
  runtimeName :: string
  frameworkName :: string
  packageManagerInstallCommand :: "string option"
  installCommand :: "string option"
  buildCommand :: "string option"
  devCommand :: "string option"

text \<open>
  \<^verbatim>\<open>read\<close> resolves to a string; the mock file system resolves to whatever its object
  holds under the path, which for an inherited name is no string.
\<close>

record FileSystem =
  exists :: "string \<Rightarrow> bool"
  read :: "string \<Rightarrow> error + string lookup"

record Runtime =
  detectCodebase :: "FileSystem \<Rightarrow> Codebase option"

record Dependency =
  name :: string
  version :: "string option"

text \<open>An entry of \<^verbatim>\<open>requiredFiles\<close> is a \<^verbatim>\<open>string\<close> or a \<^verbatim>\<open>string[]\<close>.\<close>

datatype FileOrSet = File string | FileSet "string list"

record Framework =
  name :: string
  parent :: string
  installCommand :: "string option"
  buildCommand :: "string option"
  devCommand :: "string option"
  vars :: "(string \<rightharpoonup> string) option"
  canEmbed :: "string list option"
  requiredFiles :: "FileOrSet list option"
  dependencies :: "Dependency list option"

type_synonym chain = "Framework list"

text \<open>\<^verbatim>\<open>x || []\<close> for an optional array, \<^verbatim>\<open>{...x}\<close> for an optional object.\<close>

definition orEmpty :: "'a list option \<Rightarrow> 'a list" where
  "orEmpty x = (case x of None \<Rightarrow> [] | Some xs \<Rightarrow> xs)"

definition spread :: "(string \<rightharpoonup> string) option \<Rightarrow> (string \<rightharpoonup> string)" where
  "spread x = (case x of None \<Rightarrow> Map.empty | Some m \<Rightarrow> m)"

section \<open>\<^verbatim>\<open>vars\<close>\<close>

text \<open>
  The loop runs \<^verbatim>\<open>i\<close> from the last index down to 0 and replaces the accumulator by
  \<^verbatim>\<open>{ ...vars, ...frameworks[i].vars }\<close>: the right operand of a spread wins, which is
  map addition \<open>++\<close>.
\<close>

definition vars :: "Framework list \<Rightarrow> (string \<rightharpoonup> string)" where
  "vars frameworks =
     fold (\<lambda>framework acc. acc ++ spread (Framework.vars framework)) (rev frameworks) Map.empty"

section \<open>\<^verbatim>\<open>detect\<close>\<close>

text \<open>
  \<^verbatim>\<open>allRuntimes\<close> holds instances of two classes that live in other modules; it is a
  parameter here, and a detector is a function that returns a codebase or nothing. The
  loop over the detectors' results keeps the single match seen so far.
\<close>

fun detectLoop :: "Codebase option \<Rightarrow> Codebase option list \<Rightarrow> error + Codebase option" where
  "detectLoop match [] = Inr match"
| "detectLoop match (res # matches) =
     (case res of
        None \<Rightarrow> detectLoop match matches
      | Some c \<Rightarrow>
          (case match of
             Some _ \<Rightarrow> Inl AmbiguousRuntime
           | None \<Rightarrow> detectLoop (Some c) matches))"

definition detect :: "Runtime list \<Rightarrow> FileSystem \<Rightarrow> error + Codebase option" where
  "detect allRuntimes fs =
     detectLoop None (map (\<lambda>runtime. detectCodebase runtime fs) allRuntimes)"

section \<open>\<^verbatim>\<open>MockFileSystem\<close>\<close>

definition MockFileSystem :: "(string \<rightharpoonup> string) \<Rightarrow> FileSystem" where
  "MockFileSystem mock =
     \<lparr> exists = (\<lambda>path. getProp mock path \<noteq> Undefined),
       read = (\<lambda>path. if \<not> getProp mock path \<noteq> Undefined then Inl ENOENT
                     else Inr (getProp mock path)) \<rparr>"

section \<open>\<^verbatim>\<open>supercedes\<close> and the elimination sweep of \<^verbatim>\<open>match\<close>\<close>

definition supercedes :: "chain \<Rightarrow> chain \<Rightarrow> bool" where
  "supercedes found hav =
     list_ex (\<lambda>test.
        case canEmbed test of
          None \<Rightarrow> False
        | Some names \<Rightarrow>
            list_ex (\<lambda>n. list_ex (\<lambda>framework. Framework.name framework = n) hav) names)
       found"

text \<open>\<^verbatim>\<open>allMatches.splice(k, 1)\<close>.\<close>

definition splice :: "nat \<Rightarrow> 'a list \<Rightarrow> 'a list" where
  "splice k xs = take k xs @ drop (Suc k) xs"

text \<open>
  The two nested \<^verbatim>\<open>for\<close> loops, as one function of the loop variables and the array.
  \<^item> \<^verbatim>\<open>splice(j, 1); j--; continue\<close> reaches the head of the inner loop with the same \<open>j\<close>
    (the \<^verbatim>\<open>j++\<close> of the loop undoes the \<^verbatim>\<open>j--\<close>).
  \<^item> \<^verbatim>\<open>splice(i, 1); i--; break\<close> reaches the head of the outer loop with the same \<open>i\<close>,
    where \<^verbatim>\<open>i < allMatches.length\<close> is tested before the inner loop starts again at 0.
  \<^item> When the inner loop ends, \<^verbatim>\<open>i++\<close> and the test of the outer loop follow.
  \<^item> \<^verbatim>\<open>allMatches[i]\<close> with \<open>i\<close> out of range is \<^verbatim>\<open>undefined\<close>, and \<^verbatim>\<open>supercedes\<close> raises a
    TypeError when it iterates it.
\<close>

function sweep :: "nat \<Rightarrow> nat \<Rightarrow> chain list \<Rightarrow> error + chain list" where
  "sweep i j allMatches =
     (if j < length allMatches then
        (if i = j then sweep i (j + 1) allMatches
         else if length allMatches \<le> i then Inl TypeError
         else if supercedes (allMatches ! i) (allMatches ! j) then
           sweep i j (splice j allMatches)
         else if supercedes (allMatches ! j) (allMatches ! i) then
           (if i < length (splice i allMatches) then sweep i 0 (splice i allMatches)
            else Inr (splice i allMatches))
         else sweep i (j + 1) allMatches)
      else if i + 1 < length allMatches then sweep (i + 1) 0 allMatches
      else Inr allMatches)"
  by pat_completeness auto
termination
  by (relation "measures [\<lambda>(i, j, xs). length xs, \<lambda>(i, j, xs). length xs - i,
                          \<lambda>(i, j, xs). length xs - j]")
     (auto simp: splice_def)

definition eliminate :: "chain list \<Rightarrow> error + chain list" where
  "eliminate allMatches =
     (if 0 < length allMatches then sweep 0 0 allMatches else Inr allMatches)"

text \<open>\<^verbatim>\<open>allMatches.map((chain) => chain[0].name)\<close>: reading \<^verbatim>\<open>name\<close> of \<^verbatim>\<open>undefined\<close> raises.\<close>

fun leaves :: "chain list \<Rightarrow> error + string list" where
  "leaves [] = Inr []"
| "leaves (chain # rest) =
     (case chain of
        [] \<Rightarrow> Inl TypeError
      | framework # _ \<Rightarrow>
          (case leaves rest of
             Inl e \<Rightarrow> Inl e
           | Inr ls \<Rightarrow> Inr (Framework.name framework # ls)))"

text \<open>The final decision of \<^verbatim>\<open>match\<close> on the chains that survive the sweep.\<close>

definition decide :: "chain list \<Rightarrow> error + chain" where
  "decide allMatches =
     (case allMatches of
        [] \<Rightarrow> Inr []
      | [c] \<Rightarrow> Inr c
      | _ # _ # _ \<Rightarrow>
          (case leaves allMatches of
             Inl e \<Rightarrow> Inl e
           | Inr ls \<Rightarrow> Inl (AmbiguousFramework ls)))"

section \<open>\<^verbatim>\<open>FrameworkMatcher\<close>\<close>

text \<open>
  \<^verbatim>\<open>this.frameworks\<close> and \<^verbatim>\<open>this.children\<close> start as \<^verbatim>\<open>{}\<close>. The field \<open>frameworks\<close> holds
  the own properties of the first. An assignment \<^verbatim>\<open>this.frameworks[k] = fw\<close> makes an own
  property, except for \<^verbatim>\<open>k = "__proto__"\<close>: that one makes the rule object \<open>fw\<close> the
  prototype of \<^verbatim>\<open>this.frameworks\<close>, kept in \<open>frameworksProto\<close>. The prototype of
  \<^verbatim>\<open>this.children\<close> never changes. The rule objects are plain objects with the fields of
  \<^verbatim>\<open>Framework\<close>.
\<close>

record FrameworkMatcher =
  runtime :: string
  fs :: FileSystem
  frameworks :: "string \<rightharpoonup> Framework"
  frameworksProto :: "Framework option"
  children :: "string \<rightharpoonup> string list"
  dependencies :: "string \<rightharpoonup> string"

subsection \<open>Reading and writing \<^verbatim>\<open>this.frameworks\<close> and \<^verbatim>\<open>this.children\<close>\<close>

definition setFramework :: "FrameworkMatcher \<Rightarrow> string \<Rightarrow> Framework \<Rightarrow> FrameworkMatcher" where
  "setFramework m k fw =
     (if k = ''__proto__'' then m\<lparr> frameworksProto := Some fw \<rparr>
      else m\<lparr> frameworks := (frameworks m)(k \<mapsto> fw) \<rparr>)"

definition truthyString :: "string \<Rightarrow> bool" where
  "truthyString s \<longleftrightarrow> s \<noteq> []"

text \<open>
  The property \<open>k\<close> of a rule object, when it has one that is not \<^verbatim>\<open>undefined\<close>; only
  its truthiness is kept (an array or an object is truthy).
\<close>

definition ruleProperty :: "Framework \<Rightarrow> string \<Rightarrow> bool option" where
  "ruleProperty fw k =
     (if k = ''name'' then Some (truthyString (Framework.name fw))
      else if k = ''parent'' then Some (truthyString (parent fw))
      else if k = ''installCommand'' then map_option truthyString (Framework.installCommand fw)
      else if k = ''buildCommand'' then map_option truthyString (Framework.buildCommand fw)
      else if k = ''devCommand'' then map_option truthyString (Framework.devCommand fw)
      else if k = ''vars'' then map_option (\<lambda>_. True) (Framework.vars fw)
      else if k = ''canEmbed'' then map_option (\<lambda>_. True) (canEmbed fw)
      else if k = ''requiredFiles'' then map_option (\<lambda>_. True) (requiredFiles fw)
      else if k = ''dependencies'' then map_option (\<lambda>_. True) (Framework.dependencies fw)
      else None)"

text \<open>
  \<^verbatim>\<open>this.frameworks[k]\<close>: a rule (an own property, or the prototype itself for
  \<^verbatim>\<open>__proto__\<close>), or another value, of which only the truthiness is kept (a property of
  the rule object that is the prototype, or a property of \<^verbatim>\<open>Object.prototype\<close>), or
  \<^verbatim>\<open>undefined\<close>.
\<close>

datatype frameworkProp = IsFramework Framework | OtherValue bool | NoValue

definition getFramework :: "FrameworkMatcher \<Rightarrow> string \<Rightarrow> frameworkProp" where
  "getFramework m k =
     (case frameworks m k of
        Some fw \<Rightarrow> IsFramework fw
      | None \<Rightarrow>
          if k = ''__proto__'' then
            (case frameworksProto m of Some fw \<Rightarrow> IsFramework fw | None \<Rightarrow> OtherValue True)
          else
            (case Option.bind (frameworksProto m) (\<lambda>fw. ruleProperty fw k) of
               Some b \<Rightarrow> OtherValue b
             | None \<Rightarrow> if k \<in> set objectPrototype then OtherValue True else NoValue))"

definition truthy :: "frameworkProp \<Rightarrow> bool" where
  "truthy v = (case v of IsFramework _ \<Rightarrow> True | OtherValue b \<Rightarrow> b | NoValue \<Rightarrow> False)"

text \<open>
  \<^verbatim>\<open>this.children[k] || []\<close>, on which \<^verbatim>\<open>push\<close> or \<^verbatim>\<open>map\<close> is called next: an own
  property is an array; an inherited value is truthy and has no such method, so the call
  raises a TypeError.
\<close>

definition childNames :: "FrameworkMatcher \<Rightarrow> string \<Rightarrow> error + string list" where
  "childNames m k =
     (case getProp (children m) k of
        Own names \<Rightarrow> Inr names
      | Undefined \<Rightarrow> Inr []
      | Inherited \<Rightarrow> Inl TypeError)"

subsection \<open>The constructor\<close>

text \<open>One round of the first loop, on the object under construction.\<close>

definition indexStep :: "Framework \<Rightarrow> FrameworkMatcher \<Rightarrow> error + FrameworkMatcher" where
  "indexStep framework m =
     (case childNames (setFramework m (Framework.name framework) framework) (parent framework) of
        Inl e \<Rightarrow> Inl e
      | Inr names \<Rightarrow>
          Inr ((setFramework m (Framework.name framework) framework)
                 \<lparr> children := (children m)(parent framework \<mapsto> names @ [Framework.name framework]) \<rparr>))"

fun indexLoop :: "Framework list \<Rightarrow> FrameworkMatcher \<Rightarrow> error + FrameworkMatcher" where
  "indexLoop [] m = Inr m"
| "indexLoop (framework # rest) m =
     (case indexStep framework m of
        Inl e \<Rightarrow> Inl e
      | Inr m' \<Rightarrow> indexLoop rest m')"

text \<open>The sanity check: the first framework with an unknown parent raises.\<close>

fun sanityCheck :: "string \<Rightarrow> FrameworkMatcher \<Rightarrow> Framework list \<Rightarrow> error option" where
  "sanityCheck rt m [] = None"
| "sanityCheck rt m (framework # rest) =
     (if parent framework \<noteq> rt \<and> \<not> truthy (getFramework m (parent framework))
      then Some (InvalidRuleSet (Framework.name framework) (parent framework))
      else sanityCheck rt m rest)"

text \<open>The object before the body of the constructor runs.\<close>

definition emptyMatcher :: "string \<Rightarrow> FileSystem \<Rightarrow> (string \<rightharpoonup> string) \<Rightarrow> FrameworkMatcher" where
  "emptyMatcher rt fsys deps =
     \<lparr> runtime = rt, fs = fsys, frameworks = Map.empty, frameworksProto = None,
       children = Map.empty, dependencies = deps \<rparr>"

definition newFrameworkMatcher ::
  "string \<Rightarrow> FileSystem \<Rightarrow> Framework list \<Rightarrow> (string \<rightharpoonup> string) \<Rightarrow> error + FrameworkMatcher" where
  "newFrameworkMatcher rt fsys fws deps =
     (case indexLoop fws (emptyMatcher rt fsys deps) of
        Inl e \<Rightarrow> Inl e
      | Inr m \<Rightarrow>
          (case sanityCheck rt m fws of
             Some e \<Rightarrow> Inl e
           | None \<Rightarrow> Inr m))"

subsection \<open>The local predicate of \<^verbatim>\<open>matchHelper\<close>\<close>

text \<open>
  \<^verbatim>\<open>const match = this.dependencies[dep.name]; if (!match) return [];\<close> A missing key gives
  \<^verbatim>\<open>undefined\<close>, which is falsy, and so is the empty string; an inherited value is truthy.
  The dependency map is a plain object.
\<close>

definition depsMatch :: "(string \<rightharpoonup> string) \<Rightarrow> Framework \<Rightarrow> bool" where
  "depsMatch deps fw =
     list_all (\<lambda>dep.
        case getProp deps (Dependency.name dep) of
          Own match \<Rightarrow> truthyString match
        | Inherited \<Rightarrow> True
        | Undefined \<Rightarrow> False)
       (orEmpty (Framework.dependencies fw))"

definition fileOrSetMatch :: "FileSystem \<Rightarrow> FileOrSet \<Rightarrow> bool" where
  "fileOrSetMatch fsys fileOrSet =
     (case fileOrSet of
        File file \<Rightarrow> exists fsys file
      | FileSet files \<Rightarrow> list_ex (\<lambda>x. x) (map (exists fsys) files))"

definition filesMatch :: "FileSystem \<Rightarrow> Framework \<Rightarrow> bool" where
  "filesMatch fsys fw =
     list_all (\<lambda>x. x) (map (fileOrSetMatch fsys) (orEmpty (requiredFiles fw)))"

definition matchesLocally :: "FrameworkMatcher \<Rightarrow> Framework \<Rightarrow> bool" where
  "matchesLocally m fw \<longleftrightarrow>
     depsMatch (FrameworkMatcher.dependencies m) fw \<and> filesMatch (fs m) fw"

subsection \<open>\<^verbatim>\<open>matchHelper\<close> and \<^verbatim>\<open>match\<close>\<close>

text \<open>
  The children of a node are searched by callbacks under \<^verbatim>\<open>Promise.all\<close>; each callback
  appends all chains of its child to \<^verbatim>\<open>paths\<close> in one step, when its child's search is
  done. So \<^verbatim>\<open>paths\<close> is the concatenation of the children's results in the order in which
  the children finish. That order is the parameter \<open>sched\<close>: it rearranges the list of the
  children's results of a node, and \<open>fairSched\<close> says that it only rearranges.

  A rule set whose index has a cycle below the runtime makes the recursion run forever;
  the recursion is therefore bounded by fuel, and \<open>None\<close> means that the fuel ran out.

  \<^verbatim>\<open>matchHelper\<close> is private: it is called with the name of the runtime and with names
  that the constructor pushed, and for those \<^verbatim>\<open>this.frameworks[framework]\<close> is a rule
  (\<open>getFramework_child\<close> below). With another name the value can be a string, a function
  or the prototype object; the source would go on with it as with a rule without
  requirements and put it into the chains. Chains hold rules only here, and the model
  stops at such a value with \<open>NotARule\<close>. The search of a constructed matcher never
  does (\<open>matchHelper_raises_TypeError\<close> below).
\<close>

type_synonym scheduler = "string \<Rightarrow> chain list list \<Rightarrow> chain list list"

definition fairSched :: "scheduler \<Rightarrow> bool" where
  "fairSched sched \<longleftrightarrow> (\<forall>n rs. mset (sched n rs) = mset rs)"

definition inOrder :: scheduler where
  "inOrder n rs = rs"

text \<open>The results of the children: the first child that does not return or raises decides.\<close>

fun collect :: "(error + 'a) option list \<Rightarrow> (error + 'a list) option" where
  "collect [] = Some (Inr [])"
| "collect (None # rest) = None"
| "collect (Some (Inl e) # rest) = Some (Inl e)"
| "collect (Some (Inr r) # rest) =
     (case collect rest of
        None \<Rightarrow> None
      | Some (Inl e) \<Rightarrow> Some (Inl e)
      | Some (Inr rs) \<Rightarrow> Some (Inr (r # rs)))"

definition childPaths ::
  "scheduler \<Rightarrow> string \<Rightarrow> (error + chain list) option list \<Rightarrow> (error + chain list) option" where
  "childPaths sched framework results =
     (case collect results of
        None \<Rightarrow> None
      | Some (Inl e) \<Rightarrow> Some (Inl e)
      | Some (Inr rs) \<Rightarrow> Some (Inr (concat (sched framework rs))))"

fun matchHelper ::
  "scheduler \<Rightarrow> FrameworkMatcher \<Rightarrow> nat \<Rightarrow> string \<Rightarrow> (error + chain list) option" where
  "matchHelper sched m 0 framework = None"
| "matchHelper sched m (Suc fuel) framework =
     (if framework \<noteq> runtime m then
        (case getFramework m framework of
           NoValue \<Rightarrow> Some (Inl TypeError)
         | OtherValue b \<Rightarrow> Some (Inl NotARule)
         | IsFramework fw \<Rightarrow>
             if \<not> depsMatch (FrameworkMatcher.dependencies m) fw then Some (Inr [])
             else if \<not> filesMatch (fs m) fw then Some (Inr [])
             else
               (case childNames m framework of
                  Inl e \<Rightarrow> Some (Inl e)
                | Inr names \<Rightarrow>
                    (case childPaths sched framework (map (matchHelper sched m fuel) names) of
                       None \<Rightarrow> None
                     | Some (Inl e) \<Rightarrow> Some (Inl e)
                     | Some (Inr paths) \<Rightarrow>
                         if paths = [] then Some (Inr [[fw]])
                         else Some (Inr (map (\<lambda>head. head @ [fw]) paths)))))
      else
        (case childNames m framework of
           Inl e \<Rightarrow> Some (Inl e)
         | Inr names \<Rightarrow> childPaths sched framework (map (matchHelper sched m fuel) names)))"

definition match :: "scheduler \<Rightarrow> FrameworkMatcher \<Rightarrow> nat \<Rightarrow> (error + chain) option" where
  "match sched m fuel =
     (case matchHelper sched m fuel (runtime m) of
        None \<Rightarrow> None
      | Some (Inl e) \<Rightarrow> Some (Inl e)
      | Some (Inr allMatches) \<Rightarrow>
          Some (case eliminate allMatches of
                  Inl e \<Rightarrow> Inl e
                | Inr survivors \<Rightarrow> decide survivors))"

section \<open>Notions used in the statements\<close>

text \<open>
  A rule set is well formed when the names of its frameworks are pairwise distinct and
  none of them is the name of the runtime: then the index of the constructor is a forest
  whose roots are the frameworks with the runtime as parent.
\<close>

definition wellFormed :: "string \<Rightarrow> Framework list \<Rightarrow> bool" where
  "wellFormed rt fws \<longleftrightarrow>
     distinct (map Framework.name fws) \<and> rt \<notin> set (map Framework.name fws)"

text \<open>
  Neither the runtime nor a framework has the name of a property that plain objects
  inherit.
\<close>

definition plainNames :: "string \<Rightarrow> Framework list \<Rightarrow> bool" where
  "plainNames rt fws \<longleftrightarrow>
     rt \<notin> set objectPrototype \<and> (\<forall>f\<in>set fws. Framework.name f \<notin> set objectPrototype)"

text \<open>The matcher is what the first loop of the constructor builds from the rule set.\<close>

definition indexedBy :: "FrameworkMatcher \<Rightarrow> Framework list \<Rightarrow> bool" where
  "indexedBy m fws \<longleftrightarrow>
     indexLoop fws (emptyMatcher (runtime m) (fs m) (FrameworkMatcher.dependencies m)) = Inr m"

text \<open>The rule that \<^verbatim>\<open>this.frameworks\<close> holds for the name \<open>n\<close>.\<close>

definition registered :: "FrameworkMatcher \<Rightarrow> string \<Rightarrow> Framework option" where
  "registered m n = (if n = ''__proto__'' then frameworksProto m else frameworks m n)"

text \<open>The invariants of the first loop of the constructor.\<close>

definition soundIndex :: "FrameworkMatcher \<Rightarrow> bool" where
  "soundIndex m \<longleftrightarrow>
     frameworks m ''__proto__'' = None \<and> (\<forall>k\<in>set objectPrototype. children m k = None)"

text \<open>The matcher that the constructor returns, for the examples.\<close>

definition built ::
  "string \<Rightarrow> FileSystem \<Rightarrow> Framework list \<Rightarrow> (string \<rightharpoonup> string) \<Rightarrow> FrameworkMatcher" where
  "built rt fsys fws deps =
     (case newFrameworkMatcher rt fsys fws deps of
        Inr m \<Rightarrow> m
      | Inl e \<Rightarrow> emptyMatcher rt fsys deps)"

text \<open>
  \<open>descends fws d f\<close>: the framework \<open>d\<close> is a descendant of the framework \<open>f\<close>, following
  the \<^verbatim>\<open>parent\<close> fields of the rule set upwards from \<open>d\<close>.
\<close>

inductive descends :: "Framework list \<Rightarrow> Framework \<Rightarrow> Framework \<Rightarrow> bool" for fws where
  child: "d \<in> set fws \<Longrightarrow> f \<in> set fws \<Longrightarrow> parent d = Framework.name f \<Longrightarrow> descends fws d f"
| below: "descends fws d e \<Longrightarrow> f \<in> set fws \<Longrightarrow> parent e = Framework.name f \<Longrightarrow>
     descends fws d f"

text \<open>
  \<open>ancestry rt fws p n\<close>: \<open>p\<close> lists the names from the node \<open>n\<close> up to a framework whose
  parent is the runtime (\<open>p\<close> is empty for the runtime itself). These are the nodes that
  the search reaches from the runtime.
\<close>

fun ancestry :: "string \<Rightarrow> Framework list \<Rightarrow> string list \<Rightarrow> string \<Rightarrow> bool" where
  "ancestry rt fws [] n = (n = rt)"
| "ancestry rt fws (x # p) n =
     (x = n \<and> (\<exists>f\<in>set fws. Framework.name f = n \<and> ancestry rt fws p (parent f)))"

text \<open>Each framework of a chain is the parent of the one before it.\<close>

fun linkedUp :: "chain \<Rightarrow> bool" where
  "linkedUp (g # h # rest) = (parent g = Framework.name h \<and> linkedUp (h # rest))"
| "linkedUp _ = True"

text \<open>
  What the search guarantees of a chain found below the node \<open>n\<close>: it is not empty, its
  frameworks are rules that match locally, it is linked, and its last framework is a
  child of \<open>n\<close>.
\<close>

definition goodChain :: "FrameworkMatcher \<Rightarrow> Framework list \<Rightarrow> string \<Rightarrow> chain \<Rightarrow> bool" where
  "goodChain m fws n c \<longleftrightarrow>
     c \<noteq> [] \<and> (\<forall>g\<in>set c. g \<in> set fws \<and> matchesLocally m g) \<and> linkedUp c \<and>
     parent (last c) = n"

text \<open>
  The invariant of the sweep: no chain at an index below \<open>i\<close> supersedes or is superseded
  by any other chain of the array.
\<close>

definition settled :: "nat \<Rightarrow> chain list \<Rightarrow> bool" where
  "settled i xs \<longleftrightarrow>
     (\<forall>p<i. \<forall>q<length xs. p \<noteq> q \<longrightarrow>
        \<not> supercedes (xs ! p) (xs ! q) \<and> \<not> supercedes (xs ! q) (xs ! p))"

text \<open>
  \<open>ys\<close> is what is left of \<open>xs\<close>, in the same order, and every chain that was dropped is
  superseded by a chain of \<open>xs\<close>.
\<close>

definition removedOk :: "chain list \<Rightarrow> chain list \<Rightarrow> bool" where
  "removedOk xs ys \<longleftrightarrow> subseq ys xs \<and>
     (\<forall>b\<in>set xs. b \<notin> set ys \<longrightarrow> (\<exists>a\<in>set xs. supercedes a b))"

section \<open>Rule sets used as examples\<close>

definition plainFramework :: "string \<Rightarrow> string \<Rightarrow> Framework" where
  "plainFramework n p =
     \<lparr> Framework.name = n, parent = p, installCommand = None, buildCommand = None,
       devCommand = None, vars = None, canEmbed = None, requiredFiles = None,
       dependencies = None \<rparr>"

text \<open>
  A stack of two rules: React on the runtime, which asks for the dependency \<^verbatim>\<open>react\<close>,
  and Next.js on React, which asks for one of two configuration files.
\<close>

definition reactRule :: Framework where
  "reactRule = (plainFramework ''react'' ''nodejs'')
     \<lparr> Framework.dependencies := Some [\<lparr> Dependency.name = ''react'', version = None \<rparr>] \<rparr>"

definition nextRule :: Framework where
  "nextRule = (plainFramework ''next'' ''react'')
     \<lparr> requiredFiles := Some [FileSet [''next.config.js'', ''next.config.mjs'']] \<rparr>"

definition stackRules :: "Framework list" where
  "stackRules = [reactRule, nextRule]"

definition stackFiles :: FileSystem where
  "stackFiles = MockFileSystem [''next.config.mjs'' \<mapsto> ''export default {}'']"

definition stackMatcher :: "(string \<rightharpoonup> string) \<Rightarrow> FrameworkMatcher" where
  "stackMatcher deps = built ''nodejs'' stackFiles stackRules deps"

text \<open>Two unrelated rules on the runtime, without requirements.\<close>

definition twoRules :: "Framework list" where
  "twoRules = [plainFramework ''express'' ''nodejs'', plainFramework ''react'' ''nodejs'']"

definition twoMatcher :: FrameworkMatcher where
  "twoMatcher = built ''nodejs'' (MockFileSystem Map.empty) twoRules Map.empty"

text \<open>Three rules on the runtime: the first embeds the second, the second the third.\<close>

definition outerRule :: Framework where
  "outerRule = (plainFramework ''outer'' ''nodejs'') \<lparr> canEmbed := Some [''middle''] \<rparr>"

definition middleRule :: Framework where
  "middleRule = (plainFramework ''middle'' ''nodejs'') \<lparr> canEmbed := Some [''inner''] \<rparr>"

definition innerRule :: Framework where
  "innerRule = plainFramework ''inner'' ''nodejs''"

definition nestedRules :: "Framework list" where
  "nestedRules = [outerRule, middleRule, innerRule]"

definition nestedMatcher :: FrameworkMatcher where
  "nestedMatcher = built ''nodejs'' (MockFileSystem Map.empty) nestedRules Map.empty"

text \<open>
  Two rule sets that are not well formed. In the first, a second rule named \<^verbatim>\<open>react\<close>
  follows the stack; in the second, the first rule has the name of the runtime.
\<close>

definition dupRules :: "Framework list" where
  "dupRules = [reactRule, nextRule, plainFramework ''react'' ''nodejs'']"

definition dupMatcher :: FrameworkMatcher where
  "dupMatcher = built ''nodejs'' stackFiles dupRules Map.empty"

definition clashRules :: "Framework list" where
  "clashRules =
     [(plainFramework ''nodejs'' ''base'')
        \<lparr> Framework.dependencies := Some [\<lparr> Dependency.name = ''react'', version = None \<rparr>] \<rparr>,
      plainFramework ''base'' ''base'',
      plainFramework ''express'' ''nodejs'']"

definition clashMatcher :: FrameworkMatcher where
  "clashMatcher = built ''nodejs'' stackFiles clashRules Map.empty"

text \<open>The stack with variables: both rules define \<^verbatim>\<open>outDir\<close>, only React defines \<^verbatim>\<open>port\<close>.\<close>

definition nextWithVars :: Framework where
  "nextWithVars = nextRule \<lparr> vars := Some [''outDir'' \<mapsto> ''.next''] \<rparr>"

definition reactWithVars :: Framework where
  "reactWithVars = reactRule \<lparr> vars := Some [''outDir'' \<mapsto> ''build'', ''port'' \<mapsto> ''3000''] \<rparr>"








section \<open>Inherited property names\<close>

declare sweep.simps [simp del]

lemma in_objectPrototype:
  "k \<in> set objectPrototype \<longleftrightarrow>
     k = ''constructor'' \<or> k = ''hasOwnProperty'' \<or> k = ''isPrototypeOf'' \<or>
     k = ''propertyIsEnumerable'' \<or> k = ''toLocaleString'' \<or> k = ''toString'' \<or>
     k = ''valueOf'' \<or> k = ''__defineGetter__'' \<or> k = ''__defineSetter__'' \<or>
     k = ''__lookupGetter__'' \<or> k = ''__lookupSetter__'' \<or> k = ''__proto__''"
  by (simp add: objectPrototype_def)

section \<open>Variable resolution\<close>

lemma vars_Nil: "vars [] = Map.empty"
  by (simp add: vars_def)

lemma vars_Cons: "vars (f # fws) = vars fws ++ spread (Framework.vars f)"
  by (simp add: vars_def)

text \<open>
  Claim C9. For a chain (most specific framework first), \<open>vars\<close> is the merge of the
  frameworks' variable maps: a key has the value that the first framework of the chain
  that defines it gives to it (the one nearest index 0, which wins over its ancestors),
  and is undefined when no framework of the chain defines it.
\<close>

theorem vars_most_specific_wins:
  "vars chn k =
     (case find (\<lambda>f. case Framework.vars f of None \<Rightarrow> False | Some m \<Rightarrow> m k \<noteq> None) chn of
        None \<Rightarrow> None
      | Some f \<Rightarrow> (case Framework.vars f of None \<Rightarrow> None | Some m \<Rightarrow> m k))"
proof (induction chn)
  case Nil
  show ?case by (simp add: vars_Nil)
next
  case (Cons f fws)
  show ?case
  proof (cases "Framework.vars f")
    case None
    with Cons show ?thesis by (simp add: vars_Cons spread_def)
  next
    case (Some m)
    with Cons show ?thesis
      by (cases "m k") (simp_all add: vars_Cons spread_def map_add_def)
  qed
qed

theorem vars_most_specific_wins_witness:
  "vars [nextWithVars, reactWithVars] ''outDir'' = Some ''.next'' \<and>
   vars [nextWithVars, reactWithVars] ''port'' = Some ''3000'' \<and>
   vars [nextWithVars, reactWithVars] ''host'' = None \<and>
   vars [reactWithVars] ''outDir'' = Some ''build''"
  using vars_most_specific_wins [of "[nextWithVars, reactWithVars]" "''outDir''"]
    vars_most_specific_wins [of "[nextWithVars, reactWithVars]" "''port''"]
    vars_most_specific_wins [of "[nextWithVars, reactWithVars]" "''host''"]
    vars_most_specific_wins [of "[reactWithVars]" "''outDir''"]
  by (simp add: nextWithVars_def reactWithVars_def nextRule_def reactRule_def plainFramework_def)

section \<open>Runtime orchestration\<close>

lemma detectLoop_spec:
  "detectLoop m rs =
     (case m of
        None \<Rightarrow>
          (case List.map_filter (\<lambda>x. x) rs of
             [] \<Rightarrow> Inr None
           | [c] \<Rightarrow> Inr (Some c)
           | _ # _ # _ \<Rightarrow> Inl AmbiguousRuntime)
      | Some c \<Rightarrow>
          (case List.map_filter (\<lambda>x. x) rs of
             [] \<Rightarrow> Inr (Some c)
           | _ # _ \<Rightarrow> Inl AmbiguousRuntime))"
  by (induction m rs rule: detectLoop.induct) (auto split: option.splits list.splits)

text \<open>
  Claim C7. With the list of the codebases that the runtime detectors report for a file
  system (\<open>map_filter\<close> keeps the non-null results, in the detectors' order): \<open>detect\<close>
  returns nothing when no detector matches, the one codebase when exactly one matches,
  and fails with AmbiguousRuntime when two or more match.
\<close>

theorem detect_zero_one_many:
  "detect allRuntimes fsys =
     (case List.map_filter (\<lambda>r. detectCodebase r fsys) allRuntimes of
        [] \<Rightarrow> Inr None
      | [c] \<Rightarrow> Inr (Some c)
      | _ # _ # _ \<Rightarrow> Inl AmbiguousRuntime)"
proof -
  have "List.map_filter (\<lambda>x. x) (map (\<lambda>r. detectCodebase r fsys) allRuntimes)
        = List.map_filter (\<lambda>r. detectCodebase r fsys) allRuntimes"
    by (induction allRuntimes) (auto split: option.splits)
  then show ?thesis
    by (simp add: detect_def detectLoop_spec)
qed

section \<open>The mock file system\<close>



section \<open>The index of the constructor\<close>

lemma setFramework_fields [simp]:
  "runtime (setFramework m k fw) = runtime m"
  "fs (setFramework m k fw) = fs m"
  "children (setFramework m k fw) = children m"
  "FrameworkMatcher.dependencies (setFramework m k fw) = FrameworkMatcher.dependencies m"
  by (simp_all add: setFramework_def)

lemma registered_setFramework:
  "registered (setFramework m k fw) n = (if n = k then Some fw else registered m n)"
  by (simp add: registered_def setFramework_def)

lemma registered_children_update [simp]:
  "registered (m\<lparr> children := c \<rparr>) n = registered m n"
  by (simp add: registered_def)

lemma frameworksProto_setFramework:
  "frameworksProto (setFramework m k fw) = (if k = ''__proto__'' then Some fw else frameworksProto m)"
  by (simp add: setFramework_def)

lemma own_proto_setFramework:
  "frameworks (setFramework m k fw) ''__proto__'' = frameworks m ''__proto__''"
  by (simp add: setFramework_def)

lemma childNames_sound:
  "soundIndex m \<Longrightarrow>
     childNames m n = (if n \<in> set objectPrototype then Inl TypeError
                       else Inr (orEmpty (children m n)))"
  by (auto simp: childNames_def getProp_def soundIndex_def orEmpty_def split: option.splits)

lemma indexStep_sound:
  assumes "soundIndex m"
  shows "indexStep f m =
     (if parent f \<in> set objectPrototype then Inl TypeError
      else Inr ((setFramework m (Framework.name f) f)
             \<lparr> children := (children m)(parent f \<mapsto>
                  orEmpty (children m (parent f)) @ [Framework.name f]) \<rparr>))"
proof -
  have "soundIndex (setFramework m (Framework.name f) f)"
    using assms by (simp add: soundIndex_def own_proto_setFramework)
  then show ?thesis
    by (simp add: indexStep_def childNames_sound)
qed

lemma indexStep_Inr:
  assumes "soundIndex m" "indexStep f m = Inr m'"
  shows "soundIndex m'" and "parent f \<notin> set objectPrototype"
    and "registered m' n = (if n = Framework.name f then Some f else registered m n)"
    and "orEmpty (children m' p) =
           orEmpty (children m p) @ (if parent f = p then [Framework.name f] else [])"
    and "runtime m' = runtime m" and "fs m' = fs m"
    and "FrameworkMatcher.dependencies m' = FrameworkMatcher.dependencies m"
    and "frameworksProto m' =
           (if Framework.name f = ''__proto__'' then Some f else frameworksProto m)"
proof -
  from assms indexStep_sound [OF assms(1), of f]
  have np: "parent f \<notin> set objectPrototype"
    and m': "m' = (setFramework m (Framework.name f) f)
             \<lparr> children := (children m)(parent f \<mapsto>
                  orEmpty (children m (parent f)) @ [Framework.name f]) \<rparr>"
    by (auto split: if_splits)
  show "parent f \<notin> set objectPrototype" by (rule np)
  show "soundIndex m'"
    using assms(1) np unfolding m' by (auto simp: soundIndex_def own_proto_setFramework)
  show "registered m' n = (if n = Framework.name f then Some f else registered m n)"
    unfolding m' by (simp add: registered_setFramework)
  show "orEmpty (children m' p) =
           orEmpty (children m p) @ (if parent f = p then [Framework.name f] else [])"
    unfolding m' by (simp add: orEmpty_def)
  show "runtime m' = runtime m" "fs m' = fs m"
    "FrameworkMatcher.dependencies m' = FrameworkMatcher.dependencies m"
    unfolding m' by simp_all
  show "frameworksProto m' =
           (if Framework.name f = ''__proto__'' then Some f else frameworksProto m)"
    unfolding m' by (simp add: frameworksProto_setFramework)
qed



lemma indexLoop_Cons_Inr:
  assumes "soundIndex m" "indexLoop (f # fws) m = Inr m'"
  obtains m1 where "indexStep f m = Inr m1" "soundIndex m1" "indexLoop fws m1 = Inr m'"
proof -
  from assms(2) obtain m1 where m1: "indexStep f m = Inr m1" "indexLoop fws m1 = Inr m'"
    by (auto split: sum.splits)
  with indexStep_Inr(1) [OF assms(1) m1(1)] that show ?thesis by blast
qed

lemma indexLoop_sound:
  "soundIndex m \<Longrightarrow> indexLoop fws m = Inr m' \<Longrightarrow>
     soundIndex m' \<and> (\<forall>f\<in>set fws. parent f \<notin> set objectPrototype) \<and>
     runtime m' = runtime m \<and> fs m' = fs m \<and>
     FrameworkMatcher.dependencies m' = FrameworkMatcher.dependencies m"
proof (induction fws arbitrary: m)
  case Nil
  then show ?case by simp
next
  case (Cons f fws)
  from Cons.prems obtain m1 where
    m1: "indexStep f m = Inr m1" "soundIndex m1" "indexLoop fws m1 = Inr m'"
    by (rule indexLoop_Cons_Inr)
  from Cons.IH [OF m1(2,3)] indexStep_Inr(2,5,6,7) [OF Cons.prems(1) m1(1)]
  show ?case by simp
qed

lemma indexLoop_children:
  "soundIndex m \<Longrightarrow> indexLoop fws m = Inr m' \<Longrightarrow>
     orEmpty (children m' p) =
       orEmpty (children m p) @ map Framework.name (filter (\<lambda>f. parent f = p) fws)"
proof (induction fws arbitrary: m)
  case Nil
  then show ?case by simp
next
  case (Cons f fws)
  from Cons.prems obtain m1 where
    m1: "indexStep f m = Inr m1" "soundIndex m1" "indexLoop fws m1 = Inr m'"
    by (rule indexLoop_Cons_Inr)
  from Cons.IH [OF m1(2,3)] indexStep_Inr(4) [OF Cons.prems(1) m1(1), of p]
  show ?case by simp
qed

lemma indexLoop_registered_other:
  "soundIndex m \<Longrightarrow> indexLoop fws m = Inr m' \<Longrightarrow> n \<notin> Framework.name ` set fws \<Longrightarrow>
     registered m' n = registered m n"
proof (induction fws arbitrary: m)
  case Nil
  then show ?case by simp
next
  case (Cons f fws)
  from Cons.prems(1,2) obtain m1 where
    m1: "indexStep f m = Inr m1" "soundIndex m1" "indexLoop fws m1 = Inr m'"
    by (rule indexLoop_Cons_Inr)
  from Cons.prems(3) have "n \<notin> Framework.name ` set fws" "n \<noteq> Framework.name f" by auto
  with Cons.IH [OF m1(2,3)] indexStep_Inr(3) [OF Cons.prems(1) m1(1), of n]
  show ?case by simp
qed

lemma indexLoop_registered_Some:
  "soundIndex m \<Longrightarrow> indexLoop fws m = Inr m' \<Longrightarrow> registered m' n = Some g \<Longrightarrow>
     (g \<in> set fws \<and> Framework.name g = n) \<or> registered m n = Some g"
proof (induction fws arbitrary: m)
  case Nil
  then show ?case by simp
next
  case (Cons f fws)
  from Cons.prems(1,2) obtain m1 where
    m1: "indexStep f m = Inr m1" "soundIndex m1" "indexLoop fws m1 = Inr m'"
    by (rule indexLoop_Cons_Inr)
  from Cons.IH [OF m1(2,3) Cons.prems(3)] indexStep_Inr(3) [OF Cons.prems(1) m1(1), of n]
  show ?case by (auto split: if_splits)
qed

lemma indexLoop_registered_known:
  "soundIndex m \<Longrightarrow> indexLoop fws m = Inr m' \<Longrightarrow> n \<in> Framework.name ` set fws \<Longrightarrow>
     registered m' n \<noteq> None"
proof (induction fws arbitrary: m)
  case Nil
  then show ?case by simp
next
  case (Cons f fws)
  from Cons.prems(1,2) obtain m1 where
    m1: "indexStep f m = Inr m1" "soundIndex m1" "indexLoop fws m1 = Inr m'"
    by (rule indexLoop_Cons_Inr)
  show ?case
  proof (cases "n \<in> Framework.name ` set fws")
    case True
    from Cons.IH [OF m1(2,3) True] show ?thesis .
  next
    case False
    with Cons.prems(3) have "n = Framework.name f" by auto
    with indexLoop_registered_other [OF m1(2,3) False]
      indexStep_Inr(3) [OF Cons.prems(1) m1(1), of n]
    show ?thesis by simp
  qed
qed



lemma soundIndex_empty: "soundIndex (emptyMatcher rt fsys deps)"
  by (simp add: soundIndex_def emptyMatcher_def)

lemma registered_empty: "registered (emptyMatcher rt fsys deps) n = None"
  by (simp add: registered_def emptyMatcher_def)

lemma getFramework_registered:
  "soundIndex m \<Longrightarrow> getFramework m n = IsFramework f \<longleftrightarrow> registered m n = Some f"
  by (auto simp: getFramework_def registered_def soundIndex_def Option.bind_eq_None_conv
      split: option.splits if_splits)


section \<open>Construction of the matcher\<close>

lemma built_fields:
  assumes "newFrameworkMatcher rt fsys fws deps = Inr m"
  shows "runtime m = rt \<and> fs m = fsys \<and> FrameworkMatcher.dependencies m = deps \<and>
     indexedBy m fws"
proof -
  from assms have loop: "indexLoop fws (emptyMatcher rt fsys deps) = Inr m"
    by (auto simp: newFrameworkMatcher_def split: sum.splits option.splits)
  from indexLoop_sound [OF soundIndex_empty loop]
  have "runtime m = rt" "fs m = fsys" "FrameworkMatcher.dependencies m = deps"
    by (simp_all add: emptyMatcher_def)
  with loop show ?thesis by (simp add: indexedBy_def)
qed

lemma indexedBy_loop:
  "indexedBy m fws \<Longrightarrow>
     indexLoop fws (emptyMatcher (runtime m) (fs m) (FrameworkMatcher.dependencies m)) = Inr m"
  by (simp add: indexedBy_def)

lemma indexedBy_sound: "indexedBy m fws \<Longrightarrow> soundIndex m"
  using indexLoop_sound [OF soundIndex_empty indexedBy_loop] by blast


lemma indexedBy_children:
  "indexedBy m fws \<Longrightarrow>
     orEmpty (children m p) = map Framework.name (filter (\<lambda>f. parent f = p) fws)"
  using indexLoop_children [OF soundIndex_empty indexedBy_loop, of m fws p]
  by (simp add: emptyMatcher_def orEmpty_def)

lemma indexedBy_childNames:
  "indexedBy m fws \<Longrightarrow>
     childNames m n =
       (if n \<in> set objectPrototype then Inl TypeError
        else Inr (map Framework.name (filter (\<lambda>f. parent f = n) fws)))"
  by (simp add: childNames_sound [OF indexedBy_sound] indexedBy_children)

lemma getFramework_Some:
  assumes "indexedBy m fws" "getFramework m n = IsFramework f"
  shows "f \<in> set fws \<and> Framework.name f = n"
proof -
  from assms have "registered m n = Some f"
    by (simp add: getFramework_registered [OF indexedBy_sound])
  from indexLoop_registered_Some [OF soundIndex_empty indexedBy_loop [OF assms(1)] this]
  show ?thesis by (simp add: registered_empty)
qed


lemma getFramework_child:
  assumes "indexedBy m fws" "n \<in> Framework.name ` set fws"
  shows "\<exists>f. getFramework m n = IsFramework f"
proof -
  from indexLoop_registered_known [OF soundIndex_empty indexedBy_loop [OF assms(1)] assms(2)]
  obtain f where "registered m n = Some f" by blast
  then show ?thesis by (auto simp: getFramework_registered [OF indexedBy_sound [OF assms(1)]])
qed




lemmas index_defs = newFrameworkMatcher_def emptyMatcher_def indexStep_def childNames_def
  setFramework_def getProp_def getFramework_def truthy_def ruleProperty_def truthyString_def
  in_objectPrototype orEmpty_def plainFramework_def MockFileSystem_def




section \<open>The search and its fuel\<close>

lemma collect_Inr_D:
  "collect ys = Some (Inr rs) \<Longrightarrow> ys = map (\<lambda>r. Some (Inr r)) rs"
  by (induction ys arbitrary: rs rule: collect.induct)
     (auto split: option.splits sum.splits)



lemma all_return:
  "\<forall>x\<in>set xs. \<exists>r. g x = Some (Inr r) \<Longrightarrow> \<exists>rs. collect (map g xs) = Some (Inr rs)"
proof (induction xs)
  case Nil
  then show ?case by simp
next
  case (Cons x xs)
  then obtain r rs where "g x = Some (Inr r)" "collect (map g xs) = Some (Inr rs)"
    by auto
  then show ?case by simp
qed

text \<open>The two branches of \<open>matchHelper\<close>, with the recursive calls left folded.\<close>

lemma matchHelper_at_runtime:
  "matchHelper sched m (Suc k) (runtime m) =
     (case childNames m (runtime m) of
        Inl e \<Rightarrow> Some (Inl e)
      | Inr names \<Rightarrow> childPaths sched (runtime m) (map (matchHelper sched m k) names))"
  by simp

lemma matchHelper_at_rule:
  assumes "n \<noteq> runtime m" "getFramework m n = IsFramework fw"
  shows "matchHelper sched m (Suc k) n =
     (if \<not> matchesLocally m fw then Some (Inr [])
      else case childNames m n of
             Inl e \<Rightarrow> Some (Inl e)
           | Inr names \<Rightarrow>
               (case childPaths sched n (map (matchHelper sched m k) names) of
                  None \<Rightarrow> None
                | Some (Inl e) \<Rightarrow> Some (Inl e)
                | Some (Inr paths) \<Rightarrow>
                    Some (Inr (if paths = [] then [[fw]]
                               else map (\<lambda>head. head @ [fw]) paths))))"
  using assms
  by (auto simp: matchesLocally_def split: sum.splits option.splits)

lemma matchHelper_no_rule:
  assumes "n \<noteq> runtime m" "\<forall>fw. getFramework m n \<noteq> IsFramework fw"
  shows "\<exists>e. matchHelper sched m (Suc k) n = Some (Inl e)"
  using assms by (cases "getFramework m n") auto





section \<open>The chains of the search\<close>

lemma fair_set_concat:
  "fairSched sched \<Longrightarrow> set (concat (sched n rs)) = set (concat rs)"
proof -
  assume "fairSched sched"
  then have "mset (sched n rs) = mset rs" by (simp add: fairSched_def)
  then have "set (sched n rs) = set rs" by (rule mset_eq_setD)
  then show ?thesis by simp
qed


lemma wellFormed_unique:
  "wellFormed rt fws \<Longrightarrow> f \<in> set fws \<Longrightarrow> g \<in> set fws \<Longrightarrow>
     Framework.name f = Framework.name g \<Longrightarrow> f = g"
  by (auto simp: wellFormed_def distinct_map dest: inj_onD)

lemma wellFormed_not_runtime:
  "wellFormed rt fws \<Longrightarrow> g \<in> set fws \<Longrightarrow> Framework.name g \<noteq> rt"
proof
  assume a: "wellFormed rt fws" "g \<in> set fws" "Framework.name g = rt"
  then have "rt \<in> Framework.name ` set fws" by (metis imageI)
  with a show False by (simp add: wellFormed_def)
qed


lemma child_names:
  "indexedBy m fws \<Longrightarrow> childNames m n = Inr names \<Longrightarrow>
     ch \<in> set names \<longleftrightarrow> (\<exists>g\<in>set fws. Framework.name g = ch \<and> parent g = n)"
  by (auto simp: indexedBy_childNames split: if_splits)

lemma childPaths_member:
  assumes fair: "fairSched sched"
    and cp: "childPaths sched n (map h names) = Some (Inr paths)" and c: "c \<in> set paths"
  obtains ch r where "ch \<in> set names" "h ch = Some (Inr r)" "c \<in> set r"
proof -
  from cp obtain rs where rs: "collect (map h names) = Some (Inr rs)"
    and paths: "paths = concat (sched n rs)"
    by (auto simp: childPaths_def split: option.splits sum.splits)
  from c have "c \<in> set (concat (sched n rs))" unfolding paths .
  then have "c \<in> set (concat rs)" unfolding fair_set_concat [OF fair] .
  then obtain r where r: "r \<in> set rs" "c \<in> set r" by auto
  from rs have eq: "map h names = map (\<lambda>r. Some (Inr r)) rs"
    by (rule collect_Inr_D)
  from r(1) obtain i where i: "i < length rs" "rs ! i = r" by (auto simp: in_set_conv_nth)
  from eq have len: "length names = length rs" by (metis length_map)
  from eq i len have "h (names ! i) = Some (Inr r)" by (metis nth_map)
  moreover have "names ! i \<in> set names" using i len by simp
  ultimately show ?thesis using r(2) that by blast
qed

lemma linkedUp_snoc:
  "c \<noteq> [] \<Longrightarrow> linkedUp c \<Longrightarrow> parent (last c) = Framework.name fw \<Longrightarrow> linkedUp (c @ [fw])"
  by (induction c rule: linkedUp.induct) auto

lemma linkedUp_parent:
  "linkedUp c \<Longrightarrow> d \<in> set c \<Longrightarrow> d = last c \<or> (\<exists>h\<in>set c. parent d = Framework.name h)"
  by (induction c rule: linkedUp.induct) auto

lemma matchHelper_chains:
  assumes idx: "indexedBy m fws" and wf: "wellFormed (runtime m) fws" and fair: "fairSched sched"
  shows "matchHelper sched m k n = Some (Inr cs) \<Longrightarrow> c \<in> set cs \<Longrightarrow>
     (if n = runtime m then goodChain m fws n c
      else \<exists>fw\<in>set fws. Framework.name fw = n \<and> last c = fw \<and> goodChain m fws (parent fw) c)"
proof (induction k arbitrary: n cs c)
  case 0
  then show ?case by simp
next
  case (Suc k)
  have kids: "goodChain m fws n c'"
    if names: "childNames m n = Inr names"
      and cp: "childPaths sched n (map (matchHelper sched m k) names) = Some (Inr paths)"
      and c': "c' \<in> set paths" for names paths c'
  proof -
    from childPaths_member [OF fair cp c'] obtain ch r where
      ch: "ch \<in> set names" and res: "matchHelper sched m k ch = Some (Inr r)" and r: "c' \<in> set r"
      by blast
    from ch obtain g where g: "g \<in> set fws" "Framework.name g = ch" "parent g = n"
      using child_names [OF idx names] by blast
    then have "ch \<noteq> runtime m" using wellFormed_not_runtime [OF wf] by metis
    with Suc.IH [OF res r] obtain fw where
      fw: "fw \<in> set fws" "Framework.name fw = ch" "last c' = fw"
        "goodChain m fws (parent fw) c'"
      by auto
    with g wf have "fw = g" by (auto intro: wellFormed_unique)
    with fw g show ?thesis by simp
  qed
  show ?case
  proof (cases "n = runtime m")
    case True
    from Suc.prems(1) True obtain names where
      names: "childNames m n = Inr names"
      and cp: "childPaths sched n (map (matchHelper sched m k) names) = Some (Inr cs)"
      by (cases "childNames m (runtime m)") (simp_all only: matchHelper_at_runtime sum.case, auto)
    from kids [OF names cp Suc.prems(2)] True show ?thesis by simp
  next
    case nrt: False
    show ?thesis
    proof (cases "\<exists>fw. getFramework m n = IsFramework fw")
      case False
      with matchHelper_no_rule [OF nrt, of sched k] Suc.prems(1) show ?thesis by auto
    next
      case True
      then obtain fw where gf: "getFramework m n = IsFramework fw" by blast
      from getFramework_Some [OF idx gf] have fw: "fw \<in> set fws" "Framework.name fw = n"
        by simp_all
      note eq = matchHelper_at_rule [OF nrt gf]
      show ?thesis
      proof (cases "matchesLocally m fw")
        case False
        with Suc.prems show ?thesis unfolding eq by simp
      next
        case loc: True
        from Suc.prems(1) loc obtain names paths where
          names: "childNames m n = Inr names"
          and cp: "childPaths sched n (map (matchHelper sched m k) names) = Some (Inr paths)"
          and cs: "cs = (if paths = [] then [[fw]] else map (\<lambda>head. head @ [fw]) paths)"
          unfolding eq by (auto split: sum.splits option.splits)
        show ?thesis
        proof (cases "paths = []")
          case True
          with cs Suc.prems(2) have "c = [fw]" by simp
          with fw loc nrt show ?thesis by (auto simp: goodChain_def)
        next
          case ne: False
          with cs Suc.prems(2) obtain c' where c': "c' \<in> set paths" "c = c' @ [fw]"
            by auto
          from kids [OF names cp c'(1)] have g: "goodChain m fws n c'" .
          then have "linkedUp (c' @ [fw])"
            using fw by (auto simp: goodChain_def intro: linkedUp_snoc)
          with g c' fw loc nrt show ?thesis by (auto simp: goodChain_def)
        qed
      qed
    qed
  qed
qed

lemma descends_in_chain:
  assumes wf: "wellFormed rt fws" and good: "goodChain m fws rt c"
  shows "descends fws d f \<Longrightarrow> d \<in> set c \<Longrightarrow> f \<in> set c"
proof (induction rule: descends.induct)
  case (child d f)
  from good child linkedUp_parent [of c d]
  consider "d = last c" | h where "h \<in> set c" "parent d = Framework.name h"
    by (auto simp: goodChain_def)
  then show ?case
  proof cases
    case 1
    with good child have "Framework.name f = rt" by (simp add: goodChain_def)
    then have False using wellFormed_not_runtime [OF wf] child by metis
    then show ?thesis ..
  next
    case 2
    with good have "h \<in> set fws" by (simp add: goodChain_def)
    with 2 child wf have "h = f" by (auto intro: wellFormed_unique)
    with 2 show ?thesis by simp
  qed
next
  case (below d e f)
  then have e: "e \<in> set c" by simp
  from good e linkedUp_parent [of c e]
  consider "e = last c" | h where "h \<in> set c" "parent e = Framework.name h"
    by (auto simp: goodChain_def)
  then show ?case
  proof cases
    case 1
    with good below have "Framework.name f = rt" by (simp add: goodChain_def)
    then have False using wellFormed_not_runtime [OF wf] below by metis
    then show ?thesis ..
  next
    case 2
    with good have "h \<in> set fws" by (simp add: goodChain_def)
    with 2 below wf have "h = f" by (auto intro: wellFormed_unique)
    with 2 show ?thesis by simp
  qed
qed

lemma ancestry_names: "ancestry rt fws p n \<Longrightarrow> set p \<subseteq> Framework.name ` set fws"
  by (induction p arbitrary: n) auto

lemma ancestry_unique:
  "wellFormed rt fws \<Longrightarrow> ancestry rt fws p n \<Longrightarrow> ancestry rt fws q n \<Longrightarrow> p = q"
proof (induction p arbitrary: q n)
  case Nil
  then show ?case by (cases q) (auto simp: wellFormed_def)
next
  case (Cons x p)
  from Cons.prems(2) obtain f where f: "x = n" "f \<in> set fws" "Framework.name f = n"
    "ancestry rt fws p (parent f)" by auto
  with Cons.prems(1) have "n \<noteq> rt" by (auto simp: wellFormed_def)
  with Cons.prems(3) obtain y q' where q: "q = y # q'" by (cases q) auto
  with Cons.prems(3) obtain f' where f': "y = n" "f' \<in> set fws" "Framework.name f' = n"
    "ancestry rt fws q' (parent f')" by auto
  with f Cons.prems(1) have "f' = f" by (auto intro: wellFormed_unique)
  with f' f Cons.IH [OF Cons.prems(1), of "parent f" q'] q show ?case by simp
qed

lemma ancestry_suffix:
  "ancestry rt fws p n \<Longrightarrow> x \<in> set p \<Longrightarrow> \<exists>s. ancestry rt fws s x \<and> length s \<le> length p"
proof (induction p arbitrary: n)
  case Nil
  then show ?case by simp
next
  case (Cons y p)
  from Cons.prems(1) obtain f where f: "y = n" "f \<in> set fws" "Framework.name f = n"
    "ancestry rt fws p (parent f)" by auto
  show ?case
  proof (cases "x \<in> set p")
    case True
    from Cons.IH [OF f(4) True] show ?thesis by (auto intro: le_SucI)
  next
    case False
    with Cons.prems(2) have "x = y" by simp
    with f Cons.prems(1) show ?thesis by blast
  qed
qed

lemma ancestry_distinct:
  "wellFormed rt fws \<Longrightarrow> ancestry rt fws p n \<Longrightarrow> distinct p"
proof (induction p arbitrary: n)
  case Nil
  then show ?case by simp
next
  case (Cons y p)
  from Cons.prems(2) obtain f where f: "y = n" "f \<in> set fws" "Framework.name f = n"
    "ancestry rt fws p (parent f)" by auto
  have "n \<notin> set p"
  proof
    assume "n \<in> set p"
    from ancestry_suffix [OF f(4) this] obtain s where
      s: "ancestry rt fws s n" "length s \<le> length p" by blast
    from ancestry_unique [OF Cons.prems(1) s(1) Cons.prems(2)] s(2) show False by simp
  qed
  with Cons.IH [OF Cons.prems(1) f(4)] f show ?case by simp
qed

lemma ancestry_length:
  assumes "wellFormed rt fws" "ancestry rt fws p n"
  shows "length p \<le> length fws"
proof -
  have "length p = card (set p)"
    using ancestry_distinct [OF assms] by (simp add: distinct_card)
  also have "\<dots> \<le> card (Framework.name ` set fws)"
    using ancestry_names [OF assms(2)] by (simp add: card_mono)
  also have "\<dots> \<le> card (set fws)" by (simp add: card_image_le)
  also have "\<dots> \<le> length fws" by (rule card_length)
  finally show ?thesis .
qed

lemma plain_childNames:
  assumes idx: "indexedBy m fws" and plain: "plainNames (runtime m) fws"
    and anc: "ancestry (runtime m) fws p n"
  shows "childNames m n = Inr (map Framework.name (filter (\<lambda>f. parent f = n) fws))"
proof -
  have "n \<notin> set objectPrototype"
    using anc plain by (cases p) (auto simp: plainNames_def)
  then show ?thesis by (simp add: indexedBy_childNames [OF idx])
qed

lemma matchHelper_returns_from:
  assumes idx: "indexedBy m fws" and wf: "wellFormed (runtime m) fws"
    and plain: "plainNames (runtime m) fws"
  shows "ancestry (runtime m) fws p n \<Longrightarrow> length fws < k + length p \<Longrightarrow>
     \<exists>cs. matchHelper sched m k n = Some (Inr cs)"
proof (induction k arbitrary: n p)
  case 0
  with ancestry_length [OF wf 0(1)] show ?case by simp
next
  case (Suc k)
  let ?names = "map Framework.name (filter (\<lambda>f. parent f = n) fws)"
  have names: "childNames m n = Inr ?names"
    by (rule plain_childNames [OF idx plain Suc.prems(1)])
  have "\<forall>ch\<in>set ?names. \<exists>r. matchHelper sched m k ch = Some (Inr r)"
  proof
    fix ch assume "ch \<in> set ?names"
    then obtain g where g: "g \<in> set fws" "Framework.name g = ch" "parent g = n"
      using child_names [OF idx names] by blast
    with Suc.prems(1) have "ancestry (runtime m) fws (ch # p) ch" by auto
    from Suc.IH [OF this] Suc.prems(2)
    show "\<exists>r. matchHelper sched m k ch = Some (Inr r)" by simp
  qed
  then obtain rs where "collect (map (matchHelper sched m k) ?names) = Some (Inr rs)"
    using all_return by blast
  then have cp: "childPaths sched n (map (matchHelper sched m k) ?names)
      = Some (Inr (concat (sched n rs)))"
    by (simp add: childPaths_def)
  show ?case
  proof (cases "n = runtime m")
    case True
    with cp names show ?thesis by (simp only: matchHelper_at_runtime sum.case) simp
  next
    case False
    with Suc.prems(1) have "n \<in> Framework.name ` set fws" by (cases p) auto
    from getFramework_child [OF idx this] obtain fw where
      fw: "getFramework m n = IsFramework fw" by blast
    show ?thesis
      unfolding matchHelper_at_rule [OF False fw] using cp names by simp
  qed
qed

lemma matchHelper_returns:
  assumes "indexedBy m fws" "wellFormed (runtime m) fws" "plainNames (runtime m) fws"
  shows "\<exists>cs. matchHelper sched m (Suc (length fws)) (runtime m) = Some (Inr cs)"
  using matchHelper_returns_from [OF assms, of "[]" "runtime m" "Suc (length fws)"] by simp

section \<open>The elimination sweep and the decision of \<^verbatim>\<open>match\<close>\<close>

lemma supercedes_iff:
  "supercedes found hav \<longleftrightarrow>
     (\<exists>test\<in>set found. \<exists>n\<in>set (orEmpty (canEmbed test)). \<exists>framework\<in>set hav.
        Framework.name framework = n)"
  unfolding supercedes_def list_ex_iff
  by (rule bex_cong [OF refl]) (auto simp: orEmpty_def split: option.splits)

lemma length_splice: "k < length xs \<Longrightarrow> length (splice k xs) = length xs - 1"
  by (simp add: splice_def)

lemma nth_splice:
  "k < length xs \<Longrightarrow> q < length xs - 1 \<Longrightarrow>
     splice k xs ! q = (if q < k then xs ! q else xs ! Suc q)"
  by (auto simp: splice_def nth_append min_def)

lemma subseq_splice: "subseq (splice k xs) xs"
proof -
  have "subseq (drop (Suc k) xs) (drop k xs)"
    by (metis drop_Suc drop_tl list_emb_Cons list.collapse subseq_order.order_refl tl_Nil)
  then have "subseq (take k xs @ drop (Suc k) xs) (take k xs @ drop k xs)"
    by (rule subseq_append' [THEN iffD2])
  then show ?thesis by (simp add: splice_def)
qed

lemma set_splice: "k < length xs \<Longrightarrow> set xs = insert (xs ! k) (set (splice k xs))"
proof -
  assume k: "k < length xs"
  then have "xs = take k xs @ xs ! k # drop (Suc k) xs"
    by (simp add: id_take_nth_drop)
  then have "set xs = set (take k xs @ xs ! k # drop (Suc k) xs)"
    by simp
  then show ?thesis by (simp add: splice_def)
qed

lemma removedOk_refl: "removedOk xs xs"
  by (simp add: removedOk_def)

lemma removedOk_splice:
  assumes k: "k < length xs" and a: "a \<in> set xs" "supercedes a (xs ! k)"
    and r: "removedOk (splice k xs) ys"
  shows "removedOk xs ys"
proof -
  let ?xs' = "splice k xs"
  have s: "set xs = insert (xs ! k) (set ?xs')" by (rule set_splice [OF k])
  have "subseq ys xs"
    using r subseq_splice [of k xs] by (auto simp: removedOk_def)
  moreover have "\<exists>a\<in>set xs. supercedes a b" if b: "b \<in> set xs" "b \<notin> set ys" for b
  proof (cases "b \<in> set ?xs'")
    case True
    with r b obtain a' where "a' \<in> set ?xs'" "supercedes a' b"
      by (auto simp: removedOk_def)
    with s show ?thesis by blast
  next
    case False
    with s b have "b = xs ! k" by auto
    with a show ?thesis by blast
  qed
  ultimately show ?thesis by (simp add: removedOk_def)
qed

lemma settled_splice:
  assumes "settled i xs" "i \<le> k" "k < length xs"
  shows "settled i (splice k xs)"
  unfolding settled_def
proof (intro allI impI)
  fix p q assume p: "p < i" and q: "q < length (splice k xs)" and pq: "p \<noteq> q"
  from q assms have q': "q < length xs - 1" by (simp add: length_splice)
  have np: "splice k xs ! p = xs ! p"
    using p assms q' by (simp add: nth_splice)
  show "\<not> supercedes (splice k xs ! p) (splice k xs ! q) \<and>
        \<not> supercedes (splice k xs ! q) (splice k xs ! p)"
  proof (cases "q < k")
    case True
    then have "splice k xs ! q = xs ! q" using assms q' by (simp add: nth_splice)
    moreover have "q < length xs" using q' by simp
    ultimately show ?thesis using assms(1) p pq np by (simp add: settled_def)
  next
    case False
    then have "splice k xs ! q = xs ! Suc q" using assms q' by (simp add: nth_splice)
    moreover have "Suc q < length xs" "p \<noteq> Suc q" using q' False p assms by auto
    ultimately show ?thesis using assms(1) p np by (simp add: settled_def)
  qed
qed

lemma sweep_result:
  assumes "i < length xs" "settled i xs"
    "\<forall>q<j. q \<noteq> i \<longrightarrow> \<not> supercedes (xs ! i) (xs ! q) \<and> \<not> supercedes (xs ! q) (xs ! i)"
  shows "\<exists>ys. sweep i j xs = Inr ys \<and> ys \<noteq> [] \<and> settled (length ys) ys \<and> removedOk xs ys"
  using assms
proof (induction i j xs rule: sweep.induct)
  case (1 i j xs)
  note ilt = \<open>i < length xs\<close> and st = \<open>settled i xs\<close> and
    seen = \<open>\<forall>q<j. q \<noteq> i \<longrightarrow> \<not> supercedes (xs ! i) (xs ! q) \<and> \<not> supercedes (xs ! q) (xs ! i)\<close>
  show ?case
  proof (cases "j < length xs")
    case jlt: True
    show ?thesis
    proof (cases "i = j")
      case True
      have "\<forall>q<j + 1. q \<noteq> i \<longrightarrow> \<not> supercedes (xs ! i) (xs ! q) \<and> \<not> supercedes (xs ! q) (xs ! i)"
        using seen True by (auto simp: less_Suc_eq)
      from "1.IH"(1) [OF jlt True ilt st this] show ?thesis
        using jlt True by (subst sweep.simps) simp
    next
      case ij: False
      have i_lt_j: "i < j" if "supercedes (xs ! i) (xs ! j) \<or> supercedes (xs ! j) (xs ! i)"
      proof (rule ccontr)
        assume "\<not> i < j"
        with ij have "j < i" by simp
        with st ilt have "\<not> supercedes (xs ! j) (xs ! i) \<and> \<not> supercedes (xs ! i) (xs ! j)"
          by (auto simp: settled_def)
        with that show False by blast
      qed
      have nle: "\<not> length xs \<le> i" using ilt by simp
      show ?thesis
      proof (cases "supercedes (xs ! i) (xs ! j)")
        case sij: True
        then have lt: "i < j" using i_lt_j by blast
        let ?xs' = "splice j xs"
        have a: "i < length ?xs'" using lt jlt by (simp add: length_splice)
        have b: "settled i ?xs'" using settled_splice [OF st _ jlt] lt by simp
        have c: "\<forall>q<j. q \<noteq> i \<longrightarrow> \<not> supercedes (?xs' ! i) (?xs' ! q) \<and>
                   \<not> supercedes (?xs' ! q) (?xs' ! i)"
        proof (intro allI impI)
          fix q assume q: "q < j" "q \<noteq> i"
          have "?xs' ! i = xs ! i" "?xs' ! q = xs ! q"
            using lt jlt q by (simp_all add: nth_splice)
          with seen q show "\<not> supercedes (?xs' ! i) (?xs' ! q) \<and>
                   \<not> supercedes (?xs' ! q) (?xs' ! i)" by simp
        qed
        from "1.IH"(2) [OF jlt ij nle sij a b c]
        obtain ys where ys: "sweep i j ?xs' = Inr ys" "ys \<noteq> []" "settled (length ys) ys"
          "removedOk ?xs' ys" by blast
        have "removedOk xs ys"
          using removedOk_splice [OF jlt _ sij ys(4)] ilt by simp
        with ys show ?thesis
          using jlt ij nle sij by (subst sweep.simps) simp
      next
        case nsij: False
        show ?thesis
        proof (cases "supercedes (xs ! j) (xs ! i)")
          case sji: True
          then have lt: "i < j" using i_lt_j by blast
          let ?xs' = "splice i xs"
          have b: "settled i ?xs'" using settled_splice [OF st _ ilt] by simp
          have jin: "xs ! j \<in> set xs" using jlt by simp
          show ?thesis
          proof (cases "i < length ?xs'")
            case True
            have c: "\<forall>q<0. q \<noteq> i \<longrightarrow> \<not> supercedes (?xs' ! i) (?xs' ! q) \<and>
                   \<not> supercedes (?xs' ! q) (?xs' ! i)" by simp
            from "1.IH"(3) [OF jlt ij nle nsij sji True True b c]
            obtain ys where ys: "sweep i 0 ?xs' = Inr ys" "ys \<noteq> []" "settled (length ys) ys"
              "removedOk ?xs' ys" by blast
            have "removedOk xs ys"
              using removedOk_splice [OF ilt jin sji ys(4)] .
            with ys show ?thesis
              using jlt ij nle nsij sji True by (subst sweep.simps) simp
          next
            case False
            then have len: "length ?xs' = i" using ilt by (simp add: length_splice)
            have ne: "?xs' \<noteq> []" using lt jlt by (auto simp: splice_def)
            have "removedOk xs ?xs'"
              using removedOk_splice [OF ilt jin sji removedOk_refl] .
            with b len ne show ?thesis
              using jlt ij nle nsij sji False by (subst sweep.simps) simp
          qed
        next
          case nsji: False
          have "\<forall>q<j + 1. q \<noteq> i \<longrightarrow> \<not> supercedes (xs ! i) (xs ! q) \<and>
                  \<not> supercedes (xs ! q) (xs ! i)"
            using seen nsij nsji by (auto simp: less_Suc_eq)
          from "1.IH"(4) [OF jlt ij nle nsij nsji ilt st this] show ?thesis
            using jlt ij nle nsij nsji by (subst sweep.simps) simp
        qed
      qed
    qed
  next
    case jge: False
    have st': "settled (Suc i) xs"
      unfolding settled_def
    proof (intro allI impI)
      fix p q assume "p < Suc i" "q < length xs" "p \<noteq> q"
      then show "\<not> supercedes (xs ! p) (xs ! q) \<and> \<not> supercedes (xs ! q) (xs ! p)"
        using st seen jge by (cases "p = i") (auto simp: settled_def)
    qed
    show ?thesis
    proof (cases "i + 1 < length xs")
      case True
      have c: "\<forall>q<0. q \<noteq> i + 1 \<longrightarrow> \<not> supercedes (xs ! (i + 1)) (xs ! q) \<and>
                   \<not> supercedes (xs ! q) (xs ! (i + 1))" by simp
      from "1.IH"(5) [OF jge True True _ c] st' show ?thesis
        using jge True by (subst sweep.simps) simp
    next
      case False
      then have "length xs = Suc i" using ilt by simp
      with st' have "settled (length xs) xs" by simp
      moreover have "xs \<noteq> []" using ilt by auto
      ultimately show ?thesis
        using jge False removedOk_refl by (subst sweep.simps) simp
    qed
  qed
qed

lemma eliminate_result:
  "\<exists>ys. eliminate xs = Inr ys \<and> (ys = [] \<longleftrightarrow> xs = []) \<and> settled (length ys) ys \<and> removedOk xs ys"
proof (cases "xs = []")
  case True
  then show ?thesis by (simp add: eliminate_def settled_def removedOk_refl)
next
  case False
  then have "0 < length xs" by simp
  from sweep_result [OF this, of 0] obtain ys where
    "sweep 0 0 xs = Inr ys" "ys \<noteq> []" "settled (length ys) ys" "removedOk xs ys"
    by (auto simp: settled_def)
  with False show ?thesis by (simp add: eliminate_def)
qed

lemma fairSched_inOrder: "fairSched inOrder"
  by (simp add: fairSched_def inOrder_def)

lemma matchHelper_nonempty:
  assumes fair: "fairSched sched"
  shows "matchHelper sched m k n = Some (Inr cs) \<Longrightarrow> c \<in> set cs \<Longrightarrow> c \<noteq> []"
proof (induction k arbitrary: n cs c)
  case 0
  then show ?case by simp
next
  case (Suc k)
  have kids: "c' \<noteq> []"
    if cp: "childPaths sched n (map (matchHelper sched m k) names) = Some (Inr paths)"
      and c': "c' \<in> set paths" for names paths c'
  proof -
    from childPaths_member [OF fair cp c'] obtain ch r where
      "matchHelper sched m k ch = Some (Inr r)" "c' \<in> set r"
      by blast
    then show ?thesis by (rule Suc.IH)
  qed
  show ?case
  proof (cases "n = runtime m")
    case True
    from Suc.prems(1) True obtain names where
      "childPaths sched n (map (matchHelper sched m k) names) = Some (Inr cs)"
      by (cases "childNames m (runtime m)") (simp_all only: matchHelper_at_runtime sum.case, auto)
    from kids [OF this Suc.prems(2)] show ?thesis .
  next
    case nrt: False
    show ?thesis
    proof (cases "\<exists>fw. getFramework m n = IsFramework fw")
      case False
      with matchHelper_no_rule [OF nrt, of sched k] Suc.prems(1) show ?thesis by auto
    next
      case True
      then obtain fw where gf: "getFramework m n = IsFramework fw" by blast
      note eq = matchHelper_at_rule [OF nrt gf]
      show ?thesis
      proof (cases "matchesLocally m fw")
        case False
        with Suc.prems show ?thesis unfolding eq by simp
      next
        case loc: True
        from Suc.prems(1) loc obtain names paths where
          cp: "childPaths sched n (map (matchHelper sched m k) names) = Some (Inr paths)"
          and cs: "cs = (if paths = [] then [[fw]] else map (\<lambda>head. head @ [fw]) paths)"
          unfolding eq by (auto split: sum.splits option.splits)
        from cs Suc.prems(2) show ?thesis by (auto split: if_splits)
      qed
    qed
  qed
qed

lemma leaves_nonempty:
  "\<forall>c\<in>set cs. c \<noteq> [] \<Longrightarrow> leaves cs = Inr (map (\<lambda>chain. Framework.name (hd chain)) cs)"
  by (induction cs) (auto split: list.splits)

lemma subseq_set: "subseq ys xs \<Longrightarrow> set ys \<subseteq> set xs"
  by (auto dest: subseq_order.dual_order.trans list_emb_set simp: subset_iff)

text \<open>
  Claim C3. Whenever the search of \<open>match\<close> returns its list of chains, the sweep ends
  without an error, every chain that survives has a first framework, and \<open>match\<close> returns:
  the empty result when no chain survives (not an error); the chain when exactly one
  survives; an AmbiguousFramework error that names the first (most specific) framework
  of every surviving chain when two or more survive.
\<close>

theorem match_decision:
  assumes "fairSched sched"
    and "matchHelper sched m fuel (runtime m) = Some (Inr allMatches)"
  shows "\<exists>survivors.
     eliminate allMatches = Inr survivors \<and>
     (\<forall>chain\<in>set survivors. chain \<noteq> []) \<and>
     match sched m fuel =
       Some (case survivors of
               [] \<Rightarrow> Inr []
             | [chain] \<Rightarrow> Inr chain
             | _ # _ # _ \<Rightarrow>
                 Inl (AmbiguousFramework (map (\<lambda>chain. Framework.name (hd chain)) survivors)))"
proof -
  from eliminate_result [of allMatches] obtain survivors where
    s: "eliminate allMatches = Inr survivors" "removedOk allMatches survivors"
    by blast
  then have "set survivors \<subseteq> set allMatches"
    by (simp add: removedOk_def subseq_set)
  with matchHelper_nonempty [OF assms] have ne: "\<forall>chain\<in>set survivors. chain \<noteq> []"
    by blast
  then have lv: "leaves survivors = Inr (map (\<lambda>chain. Framework.name (hd chain)) survivors)"
    by (rule leaves_nonempty)
  have "decide survivors =
       (case survivors of
               [] \<Rightarrow> Inr []
             | [chain] \<Rightarrow> Inr chain
             | _ # _ # _ \<Rightarrow>
                 Inl (AmbiguousFramework (map (\<lambda>chain. Framework.name (hd chain)) survivors)))"
  proof (cases survivors)
    case Nil
    then show ?thesis by (simp add: decide_def)
  next
    case outer: (Cons a rest)
    show ?thesis
    proof (cases rest)
      case Nil
      with outer show ?thesis by (simp add: decide_def)
    next
      case (Cons b rest')
      with outer lv show ?thesis by (simp add: decide_def del: leaves.simps)
    qed
  qed
  with s(1) ne assms(2) show ?thesis
    by (simp add: match_def)
qed

lemma twoMatcher_search:
  "matchHelper inOrder twoMatcher (Suc (Suc 0)) (runtime twoMatcher) =
     Some (Inr [[plainFramework ''express'' ''nodejs''], [plainFramework ''react'' ''nodejs'']])"
  by (simp add: twoMatcher_def twoRules_def built_def index_defs
      childPaths_def inOrder_def depsMatch_def filesMatch_def)

theorem match_decision_witness:
  "fairSched inOrder \<and>
   matchHelper inOrder twoMatcher (Suc (Suc 0)) (runtime twoMatcher) =
     Some (Inr [[plainFramework ''express'' ''nodejs''], [plainFramework ''react'' ''nodejs'']]) \<and>
   match inOrder twoMatcher (Suc (Suc 0)) =
     Some (Inl (AmbiguousFramework [''express'', ''react'']))"
proof -
  from match_decision [OF fairSched_inOrder twoMatcher_search] obtain survivors where
    s: "eliminate [[plainFramework ''express'' ''nodejs''], [plainFramework ''react'' ''nodejs'']]
          = Inr survivors"
     "match inOrder twoMatcher (Suc (Suc 0)) =
       Some (case survivors of
               [] \<Rightarrow> Inr []
             | [chain] \<Rightarrow> Inr chain
             | _ # _ # _ \<Rightarrow>
                 Inl (AmbiguousFramework (map (\<lambda>chain. Framework.name (hd chain)) survivors)))"
    by blast
  have "eliminate [[plainFramework ''express'' ''nodejs''], [plainFramework ''react'' ''nodejs'']]
      = Inr [[plainFramework ''express'' ''nodejs''], [plainFramework ''react'' ''nodejs'']]"
    by (simp add: eliminate_def sweep.simps splice_def supercedes_def plainFramework_def)
  with s have "match inOrder twoMatcher (Suc (Suc 0)) =
     Some (Inl (AmbiguousFramework [''express'', ''react'']))"
    by (simp add: plainFramework_def)
  with fairSched_inOrder twoMatcher_search show ?thesis by blast
qed

lemma eliminate_pair:
  assumes "supercedes [a] [b]" "\<not> supercedes [b] [a]"
  shows "eliminate [[a], [b]] = Inr [[a]]" and "eliminate [[b], [a]] = Inr [[a]]"
  using assms by (simp_all add: eliminate_def sweep.simps splice_def)

text \<open>
  Claim C4, amended. \<open>A\<close> supersedes \<open>B\<close> iff some framework of \<open>A\<close> lists in its
  \<^verbatim>\<open>canEmbed\<close> the name of a framework of \<open>B\<close>. The sweep always ends; the chains that
  survive are the candidates that were not removed, in their order; no surviving chain
  supersedes another surviving chain (so \<open>B\<close> is removed whenever \<open>A\<close> supersedes \<open>B\<close>
  and \<open>A\<close> itself survives); every chain that disappears is superseded by a candidate.
  Given exactly the chains \<open>[a]\<close> and \<open>[b]\<close>, in either order, where \<open>a\<close> declares
  \<^verbatim>\<open>canEmbed: [b.name]\<close> and \<open>[b]\<close> does not supersede \<open>[a]\<close>, resolution returns \<open>[a]\<close>.
\<close>

theorem sweep_removes_superseded:
  "(supercedes A B \<longleftrightarrow>
      (\<exists>test\<in>set A. \<exists>n\<in>set (orEmpty (canEmbed test)). \<exists>framework\<in>set B.
         Framework.name framework = n)) \<and>
   (\<exists>survivors.
      eliminate allMatches = Inr survivors \<and>
      subseq survivors allMatches \<and>
      (\<forall>p<length survivors. \<forall>q<length survivors. p \<noteq> q \<longrightarrow>
         \<not> supercedes (survivors ! p) (survivors ! q)) \<and>
      (\<forall>b\<in>set allMatches. b \<notin> set survivors \<longrightarrow> (\<exists>a\<in>set allMatches. supercedes a b))) \<and>
   (canEmbed a = Some [Framework.name b] \<and> \<not> supercedes [b] [a] \<longrightarrow>
      eliminate [[a], [b]] = Inr [[a]] \<and> eliminate [[b], [a]] = Inr [[a]] \<and>
      decide [[a]] = Inr [a])"
proof (intro conjI impI)
  show "supercedes A B \<longleftrightarrow>
      (\<exists>test\<in>set A. \<exists>n\<in>set (orEmpty (canEmbed test)). \<exists>framework\<in>set B.
         Framework.name framework = n)"
    by (rule supercedes_iff)
next
  from eliminate_result [of allMatches] obtain survivors where
    s: "eliminate allMatches = Inr survivors" "settled (length survivors) survivors"
      "removedOk allMatches survivors"
    by blast
  from s(2) have "\<forall>p<length survivors. \<forall>q<length survivors. p \<noteq> q \<longrightarrow>
         \<not> supercedes (survivors ! p) (survivors ! q)"
    by (simp add: settled_def)
  with s(1,3) show "\<exists>survivors.
      eliminate allMatches = Inr survivors \<and>
      subseq survivors allMatches \<and>
      (\<forall>p<length survivors. \<forall>q<length survivors. p \<noteq> q \<longrightarrow>
         \<not> supercedes (survivors ! p) (survivors ! q)) \<and>
      (\<forall>b\<in>set allMatches. b \<notin> set survivors \<longrightarrow> (\<exists>a\<in>set allMatches. supercedes a b))"
    unfolding removedOk_def by blast
next
  assume h: "canEmbed a = Some [Framework.name b] \<and> \<not> supercedes [b] [a]"
  then have "supercedes [a] [b]" by (simp add: supercedes_def)
  with h show "eliminate [[a], [b]] = Inr [[a]]" "eliminate [[b], [a]] = Inr [[a]]"
    by (simp_all add: eliminate_pair)
  show "decide [[a]] = Inr [a]" by (simp add: decide_def)
qed

theorem sweep_removes_superseded_witness:
  "supercedes [outerRule] [middleRule] \<and>
   eliminate [[outerRule], [middleRule]] = Inr [[outerRule]] \<and>
   eliminate [[middleRule], [outerRule]] = Inr [[outerRule]] \<and>
   decide [[outerRule]] = Inr [outerRule]"
proof -
  have h: "canEmbed outerRule = Some [Framework.name middleRule] \<and>
      \<not> supercedes [middleRule] [outerRule]"
    by (simp add: outerRule_def middleRule_def plainFramework_def supercedes_def)
  have "supercedes [outerRule] [middleRule] \<longleftrightarrow>
      (\<exists>test\<in>set [outerRule]. \<exists>n\<in>set (orEmpty (canEmbed test)). \<exists>framework\<in>set [middleRule].
         Framework.name framework = n)"
    using sweep_removes_superseded [of "[outerRule]" "[middleRule]"] by blast
  then have "supercedes [outerRule] [middleRule]"
    by (simp add: outerRule_def middleRule_def plainFramework_def orEmpty_def)
  with h sweep_removes_superseded [of _ _ _ outerRule middleRule] show ?thesis
    by blast
qed

text \<open>
  Claim C4 as stated fails: the chain \<open>[middleRule]\<close> supersedes \<open>[innerRule]\<close>, both are
  candidates, and \<open>[innerRule]\<close> survives the sweep, because \<open>[outerRule]\<close> has removed
  \<open>[middleRule]\<close> before the two are compared; \<open>match\<close> then reports an ambiguity.
\<close>

theorem superseded_chain_survives_counterexample:
  "newFrameworkMatcher ''nodejs'' (MockFileSystem Map.empty) nestedRules Map.empty
     = Inr nestedMatcher \<and>
   [middleRule] \<in> set [[outerRule], [middleRule], [innerRule]] \<and>
   [innerRule] \<in> set [[outerRule], [middleRule], [innerRule]] \<and>
   [middleRule] \<noteq> [innerRule] \<and>
   supercedes [middleRule] [innerRule] \<and>
   eliminate [[outerRule], [middleRule], [innerRule]] = Inr [[outerRule], [innerRule]] \<and>
   matchHelper inOrder nestedMatcher (Suc (Suc 0)) (runtime nestedMatcher) =
     Some (Inr [[outerRule], [middleRule], [innerRule]]) \<and>
   match inOrder nestedMatcher (Suc (Suc 0)) =
     Some (Inl (AmbiguousFramework [''outer'', ''inner'']))"
proof -
  have e: "eliminate [[outerRule], [middleRule], [innerRule]] = Inr [[outerRule], [innerRule]]"
    by (simp add: eliminate_def sweep.simps splice_def supercedes_def outerRule_def
        middleRule_def innerRule_def plainFramework_def)
  have h: "matchHelper inOrder nestedMatcher (Suc (Suc 0)) (runtime nestedMatcher) =
     Some (Inr [[outerRule], [middleRule], [innerRule]])"
    by (simp add: nestedMatcher_def nestedRules_def built_def index_defs
        childPaths_def inOrder_def depsMatch_def filesMatch_def outerRule_def
        middleRule_def innerRule_def)
  have m: "match inOrder nestedMatcher (Suc (Suc 0)) =
     Some (Inl (AmbiguousFramework [''outer'', ''inner'']))"
    unfolding match_def h by (simp add: e decide_def) (simp add: outerRule_def
        innerRule_def plainFramework_def)
  have "supercedes [middleRule] [innerRule]" "[middleRule] \<noteq> [innerRule]"
    by (simp_all add: supercedes_def middleRule_def innerRule_def plainFramework_def)
  moreover have "newFrameworkMatcher ''nodejs'' (MockFileSystem Map.empty) nestedRules Map.empty
     = Inr nestedMatcher"
    by (simp add: nestedMatcher_def nestedRules_def built_def index_defs
        outerRule_def middleRule_def innerRule_def)
  ultimately show ?thesis using e h m by simp
qed

section \<open>One step of the search\<close>

lemma matchHelper_pruned:
  assumes "n \<noteq> runtime m" "getFramework m n = IsFramework fw" "\<not> matchesLocally m fw"
  shows "matchHelper sched m (Suc k) n = Some (Inr [])"
  using assms(3) unfolding matchHelper_at_rule [OF assms(1,2)] by simp









lemmas stack_defs = stackMatcher_def built_def index_defs stackRules_def stackFiles_def
  reactRule_def nextRule_def

lemma stackMatcher_built:
  "newFrameworkMatcher ''nodejs'' stackFiles stackRules deps = Inr (stackMatcher deps)"
  by (simp add: stack_defs)

lemma stack_wellFormed: "wellFormed ''nodejs'' stackRules"
  by (simp add: wellFormed_def stack_defs)

lemma stack_plainNames: "plainNames ''nodejs'' stackRules"
  by (simp add: plainNames_def stack_defs)


section \<open>Termination and the step at a matching node\<close>

lemma all_some:
  "\<forall>x\<in>set xs. \<exists>r. g x = Some r \<Longrightarrow> \<exists>v. collect (map g xs) = Some v"
proof (induction xs)
  case Nil
  then show ?case by simp
next
  case (Cons x xs)
  then obtain r v where r: "g x = Some r" and v: "collect (map g xs) = Some v"
    by auto
  show ?case
  proof (cases r)
    case (Inl e)
    with r show ?thesis by simp
  next
    case (Inr c)
    with r v show ?thesis by (cases v) (auto split: sum.splits)
  qed
qed

lemma matchHelper_terminates_from:
  assumes idx: "indexedBy m fws" and wf: "wellFormed (runtime m) fws"
  shows "ancestry (runtime m) fws p n \<Longrightarrow> length fws < k + length p \<Longrightarrow>
     \<exists>r. matchHelper sched m k n = Some r"
proof (induction k arbitrary: n p)
  case 0
  with ancestry_length [OF wf 0(1)] show ?case by simp
next
  case (Suc k)
  have cp: "\<exists>v. childPaths sched n (map (matchHelper sched m k) names) = Some v"
    if names: "childNames m n = Inr names" for names
  proof -
    have "\<forall>ch\<in>set names. \<exists>r. matchHelper sched m k ch = Some r"
    proof
      fix ch assume "ch \<in> set names"
      then obtain g where g: "g \<in> set fws" "Framework.name g = ch" "parent g = n"
        using child_names [OF idx names] by blast
      with Suc.prems(1) have "ancestry (runtime m) fws (ch # p) ch" by auto
      from Suc.IH [OF this] Suc.prems(2)
      show "\<exists>r. matchHelper sched m k ch = Some r" by simp
    qed
    then obtain v where "collect (map (matchHelper sched m k) names) = Some v"
      using all_some by blast
    then show ?thesis by (cases v) (simp_all add: childPaths_def)
  qed
  show ?case
  proof (cases "n = runtime m")
    case True
    show ?thesis
    proof (cases "childNames m n")
      case (Inl e)
      with True show ?thesis by (simp only: matchHelper_at_runtime sum.case) simp
    next
      case (Inr names)
      with cp [OF Inr] True show ?thesis by (simp only: matchHelper_at_runtime sum.case)
    qed
  next
    case nrt: False
    show ?thesis
    proof (cases "\<exists>fw. getFramework m n = IsFramework fw")
      case False
      with matchHelper_no_rule [OF nrt, of sched k] show ?thesis by blast
    next
      case True
      then obtain fw where fw: "getFramework m n = IsFramework fw" by blast
      show ?thesis
      proof (cases "childNames m n")
        case (Inl e)
        then show ?thesis unfolding matchHelper_at_rule [OF nrt fw] by simp
      next
        case (Inr names)
        from cp [OF Inr] obtain v where
          "childPaths sched n (map (matchHelper sched m k) names) = Some v" by blast
        with Inr show ?thesis
          unfolding matchHelper_at_rule [OF nrt fw]
          by (cases v) (simp_all split: sum.splits)
      qed
    qed
  qed
qed

lemma matchHelper_terminates:
  assumes "indexedBy m fws" "wellFormed (runtime m) fws"
  shows "\<exists>r. matchHelper sched m (Suc (length fws)) (runtime m) = Some r"
  using matchHelper_terminates_from [OF assms, of "[]" "runtime m" "Suc (length fws)"] by simp

lemmas search_defs = childPaths_def inOrder_def depsMatch_def filesMatch_def fileOrSetMatch_def




section \<open>The local predicate and pruning\<close>

lemma collect_Inl_D:
  "collect (map g xs) = Some (Inl e) \<Longrightarrow> \<exists>x\<in>set xs. g x = Some (Inl e)"
proof (induction xs)
  case Nil
  then show ?case by simp
next
  case (Cons x xs)
  show ?case
  proof (cases "g x")
    case None
    with Cons.prems show ?thesis by simp
  next
    case (Some r)
    show ?thesis
    proof (cases r)
      case (Inl e')
      with Some Cons.prems show ?thesis by simp
    next
      case (Inr v)
      with Some Cons.prems have "collect (map g xs) = Some (Inl e)"
        by (auto split: option.splits sum.splits)
      with Cons.IH show ?thesis by auto
    qed
  qed
qed

lemma childPaths_Inl_D:
  "childPaths sched n (map g xs) = Some (Inl e) \<Longrightarrow> \<exists>x\<in>set xs. g x = Some (Inl e)"
  by (auto simp: childPaths_def split: option.splits sum.splits dest: collect_Inl_D)

lemma childNames_Inl: "childNames m n = Inl e \<Longrightarrow> e = TypeError"
  by (auto simp: childNames_def split: lookup.splits)

lemma matchHelper_raises_TypeError:
  assumes idx: "indexedBy m fws"
  shows "n = runtime m \<or> n \<in> Framework.name ` set fws \<Longrightarrow>
     matchHelper sched m k n = Some (Inl e) \<Longrightarrow> e = TypeError"
proof (induction k arbitrary: n e)
  case 0
  then show ?case by simp
next
  case (Suc k)
  have kids: "e' = TypeError"
    if names: "childNames m n = Inr names"
      and cp: "childPaths sched n (map (matchHelper sched m k) names) = Some (Inl e')"
    for names e'
  proof -
    from childPaths_Inl_D [OF cp] obtain ch where
      ch: "ch \<in> set names" "matchHelper sched m k ch = Some (Inl e')"
      by blast
    from names indexedBy_childNames [OF idx, of n]
    have "names = map Framework.name (filter (\<lambda>f. parent f = n) fws)"
      by (simp split: if_splits)
    with ch(1) have "ch \<in> Framework.name ` set fws" by auto
    with Suc.IH [of ch e'] ch(2) show ?thesis by blast
  qed
  show ?case
  proof (cases "n = runtime m")
    case True
    with Suc.prems(2) kids show ?thesis
      by (auto split: sum.splits dest: childNames_Inl)
  next
    case False
    with Suc.prems(1) have "n \<in> Framework.name ` set fws" by simp
    from getFramework_child [OF idx this] obtain f where f: "getFramework m n = IsFramework f"
      by blast
    with False Suc.prems(2) kids show ?thesis
      by (auto split: sum.splits option.splits if_splits dest: childNames_Inl)
  qed
qed

lemma filesMatch_iff:
  "filesMatch fsys fw \<longleftrightarrow>
     (\<forall>entry\<in>set (orEmpty (requiredFiles fw)).
        case entry of
          File p \<Rightarrow> exists fsys p
        | FileSet ps \<Rightarrow> (\<exists>p\<in>set ps. exists fsys p))"
  by (auto simp: filesMatch_def fileOrSetMatch_def list_all_iff list_ex_iff
           split: FileOrSet.splits)

lemma depsMatch_iff:
  "depsMatch deps fw \<longleftrightarrow>
     (\<forall>dep\<in>set (orEmpty (Framework.dependencies fw)).
        (\<exists>v. deps (Dependency.name dep) = Some v \<and> v \<noteq> []) \<or>
        (deps (Dependency.name dep) = None \<and> Dependency.name dep \<in> set objectPrototype))"
  by (auto simp: depsMatch_def list_all_iff getProp_def truthyString_def
           split: option.splits lookup.splits if_splits)

lemma getFramework_own: "frameworks m n = Some fw \<Longrightarrow> getFramework m n = IsFramework fw"
  by (simp add: getFramework_def)

text \<open>
  Claim C2, amended. For every well-formed rule set (framework names pairwise distinct
  and different from the runtime name), file system and dependency map: if the
  dependency or the file predicate of a framework \<open>f\<close> is false, then no chain of a
  search that returns and no result of \<open>match\<close> contains \<open>f\<close> or a descendant of \<open>f\<close>,
  whatever the descendant's own predicate is. The search always ends, with its chains
  or with an error; when moreover neither the runtime nor a framework has the name of a
  property that plain objects inherit, it ends with its chains.
\<close>

theorem failed_predicate_prunes_subtree:
  assumes built: "newFrameworkMatcher rt fsys fws deps = Inr m"
    and wf: "wellFormed rt fws" and fair: "fairSched sched"
    and f: "f \<in> set fws" and failed: "\<not> depsMatch deps f \<or> \<not> filesMatch fsys f"
  shows "(\<forall>fuel cs. matchHelper sched m fuel rt = Some (Inr cs) \<longrightarrow>
        (\<forall>c\<in>set cs. f \<notin> set c \<and> (\<forall>d\<in>set c. \<not> descends fws d f))) \<and>
     (\<forall>fuel c. match sched m fuel = Some (Inr c) \<longrightarrow>
        f \<notin> set c \<and> (\<forall>d\<in>set c. \<not> descends fws d f)) \<and>
     (\<exists>r. matchHelper sched m (Suc (length fws)) rt = Some r) \<and>
     (plainNames rt fws \<longrightarrow>
        (\<exists>cs. matchHelper sched m (Suc (length fws)) rt = Some (Inr cs)))"
proof -
  from built have rt: "runtime m = rt" and idx: "indexedBy m fws"
    and flds: "fs m = fsys" "FrameworkMatcher.dependencies m = deps"
    using built_fields by blast+
  from wf rt have wf': "wellFormed (runtime m) fws" by simp
  from failed flds have nf: "\<not> matchesLocally m f" by (simp add: matchesLocally_def)
  have pruned: "f \<notin> set c \<and> (\<forall>d\<in>set c. \<not> descends fws d f)"
    if "matchHelper sched m fuel rt = Some (Inr cs)" "c \<in> set cs" for fuel cs c
  proof -
    from matchHelper_chains [OF idx wf' fair, of fuel rt cs c] that rt
    have good: "goodChain m fws rt c" by simp
    then have "f \<notin> set c" using nf by (auto simp: goodChain_def)
    moreover have "\<not> descends fws d f" if "d \<in> set c" for d
      using descends_in_chain [OF wf good _ that] \<open>f \<notin> set c\<close> by blast
    ultimately show ?thesis by blast
  qed
  have "f \<notin> set c \<and> (\<forall>d\<in>set c. \<not> descends fws d f)"
    if "match sched m fuel = Some (Inr c)" for fuel c
  proof -
    from that rt obtain cs survivors where
      cs: "matchHelper sched m fuel rt = Some (Inr cs)" and
      el: "eliminate cs = Inr survivors" and dec: "decide survivors = Inr c"
      by (auto simp: match_def split: option.splits sum.splits)
    from eliminate_result [of cs] el have sub: "set survivors \<subseteq> set cs"
      by (auto simp: removedOk_def dest: subseq_set)
    show ?thesis
    proof (cases "c = []")
      case True
      then show ?thesis by simp
    next
      case False
      with dec have "survivors = [c]"
        by (auto simp: decide_def split: list.splits sum.splits)
      with sub have "c \<in> set cs" by simp
      with pruned [OF cs] show ?thesis by blast
    qed
  qed
  moreover have "\<exists>cs. matchHelper sched m (Suc (length fws)) rt = Some (Inr cs)"
    if "plainNames rt fws"
    using matchHelper_returns [OF idx wf', of sched] that rt by simp
  moreover have "\<exists>r. matchHelper sched m (Suc (length fws)) rt = Some r"
    using matchHelper_terminates [OF idx wf', of sched] rt by simp
  ultimately show ?thesis using pruned by blast
qed

theorem failed_predicate_prunes_subtree_witness:
  "\<not> depsMatch Map.empty reactRule \<and>
   descends stackRules nextRule reactRule \<and>
   matchesLocally (stackMatcher Map.empty) nextRule \<and>
   plainNames ''nodejs'' stackRules \<and>
   matchHelper inOrder (stackMatcher Map.empty) (Suc (length stackRules)) ''nodejs''
     = Some (Inr [])"
proof -
  have failed: "\<not> depsMatch Map.empty reactRule \<or> \<not> filesMatch stackFiles reactRule"
    by (simp add: depsMatch_def stack_defs)
  have f: "reactRule \<in> set stackRules" by (simp add: stackRules_def)
  have d: "descends stackRules nextRule reactRule"
    by (rule descends.child) (simp_all add: stack_defs)
  have l: "matchesLocally (stackMatcher Map.empty) nextRule"
    by (simp add: matchesLocally_def search_defs stack_defs)
  from failed_predicate_prunes_subtree
    [OF stackMatcher_built stack_wellFormed fairSched_inOrder f failed] stack_plainNames
  obtain cs where
    cs: "matchHelper inOrder (stackMatcher Map.empty) (Suc (length stackRules)) ''nodejs''
      = Some (Inr cs)"
    by blast
  moreover have "matchHelper inOrder (stackMatcher Map.empty) (Suc (length stackRules)) ''nodejs''
      = Some (Inr [])"
    by (simp add: stack_defs search_defs)
  ultimately show ?thesis using failed d l stack_plainNames by (simp add: depsMatch_def stack_defs)
qed

text \<open>
  Claim C6. The file predicate of a framework is the conjunction over the entries of
  \<^verbatim>\<open>requiredFiles\<close>: a single path must exist, of a set of alternatives at least one
  path must exist. It is true when \<^verbatim>\<open>requiredFiles\<close> is absent or empty. When it is
  false, \<open>matchHelper\<close> returns no chain at the framework's node.
\<close>

theorem file_predicate_and_of_entries:
  "(filesMatch fsys fw \<longleftrightarrow>
      (\<forall>entry\<in>set (orEmpty (requiredFiles fw)).
         case entry of
           File p \<Rightarrow> exists fsys p
         | FileSet ps \<Rightarrow> (\<exists>p\<in>set ps. exists fsys p))) \<and>
   (requiredFiles fw = None \<or> requiredFiles fw = Some [] \<longrightarrow> filesMatch fsys fw) \<and>
   (n \<noteq> runtime m \<and> frameworks m n = Some fw \<and> \<not> filesMatch (fs m) fw \<longrightarrow>
      matchHelper sched m (Suc fuel) n = Some (Inr []))"
proof (intro conjI impI)
  show "filesMatch fsys fw \<longleftrightarrow>
      (\<forall>entry\<in>set (orEmpty (requiredFiles fw)).
         case entry of
           File p \<Rightarrow> exists fsys p
         | FileSet ps \<Rightarrow> (\<exists>p\<in>set ps. exists fsys p))"
    by (rule filesMatch_iff)
next
  assume "requiredFiles fw = None \<or> requiredFiles fw = Some []"
  then show "filesMatch fsys fw"
    by (auto simp: filesMatch_def orEmpty_def)
next
  assume h: "n \<noteq> runtime m \<and> frameworks m n = Some fw \<and> \<not> filesMatch (fs m) fw"
  then have "getFramework m n = IsFramework fw" "\<not> matchesLocally m fw"
    by (simp_all add: getFramework_own matchesLocally_def)
  with h show "matchHelper sched m (Suc fuel) n = Some (Inr [])"
    using matchHelper_pruned by blast
qed

theorem file_predicate_and_of_entries_witness:
  "filesMatch stackFiles nextRule \<and>
   filesMatch stackFiles reactRule \<and>
   \<not> filesMatch (MockFileSystem Map.empty) nextRule \<and>
   matchHelper inOrder (stackMatcher [''react'' \<mapsto> ''18.2.0'']
       \<lparr> fs := MockFileSystem Map.empty \<rparr>) (Suc 0) ''next'' = Some (Inr [])"
proof -
  let ?m = "stackMatcher [''react'' \<mapsto> ''18.2.0''] \<lparr> fs := MockFileSystem Map.empty \<rparr>"
  have 1: "\<forall>entry\<in>set (orEmpty (requiredFiles nextRule)).
         case entry of
           File p \<Rightarrow> exists stackFiles p
         | FileSet ps \<Rightarrow> (\<exists>p\<in>set ps. exists stackFiles p)"
    by (simp add: stack_defs)
  have 2: "requiredFiles reactRule = None \<or> requiredFiles reactRule = Some []"
    by (simp add: stack_defs)
  have 3: "\<not> (\<forall>entry\<in>set (orEmpty (requiredFiles nextRule)).
         case entry of
           File p \<Rightarrow> exists (MockFileSystem Map.empty) p
         | FileSet ps \<Rightarrow> (\<exists>p\<in>set ps. exists (MockFileSystem Map.empty) p))"
    by (simp add: stack_defs)
  have a: "filesMatch stackFiles nextRule"
    using file_predicate_and_of_entries [of stackFiles nextRule] 1 by blast
  have b: "filesMatch stackFiles reactRule"
    using file_predicate_and_of_entries [of stackFiles reactRule] 2 by blast
  have c: "\<not> filesMatch (MockFileSystem Map.empty) nextRule"
    using file_predicate_and_of_entries [of "MockFileSystem Map.empty" nextRule] 3 by blast
  have "''next'' \<noteq> runtime ?m \<and> frameworks ?m ''next'' = Some nextRule \<and>
      \<not> filesMatch (fs ?m) nextRule"
    using c by (simp add: stack_defs)
  with file_predicate_and_of_entries [where fw = nextRule and n = "''next''" and m = ?m
      and sched = inOrder and fuel = 0]
  have d: "matchHelper inOrder ?m (Suc 0) ''next'' = Some (Inr [])"
    by blast
  from a b c d show ?thesis by blast
qed

text \<open>
  Claim C5 says that the dependency predicate holds iff every declared dependency name is
  a key of the dependency map, the version string not being looked at. The code tests the
  looked-up value for truthiness, so the predicate holds iff every declared dependency
  is mapped to a non-empty string or is no key and has an inherited name
  (\<open>depsMatch_iff\<close>). The code at the dependency map \<^verbatim>\<open>{ react: "" }\<close>: the key
  \<^verbatim>\<open>react\<close> is present, the dependency predicate of \<open>reactRule\<close> is false and \<open>match\<close>
  finds nothing, where the map \<^verbatim>\<open>{ react: "18.2.0" }\<close> gives the chain of Next.js on
  React.
\<close>

theorem empty_version_fails_dependency_predicate:
  "[''react'' \<mapsto> ''''] ''react'' = Some '''' \<and>
   newFrameworkMatcher ''nodejs'' stackFiles stackRules [''react'' \<mapsto> '''']
     = Inr (stackMatcher [''react'' \<mapsto> '''']) \<and>
   \<not> depsMatch [''react'' \<mapsto> ''''] reactRule \<and>
   match inOrder (stackMatcher [''react'' \<mapsto> '''']) (Suc (Suc (Suc 0))) = Some (Inr []) \<and>
   depsMatch [''react'' \<mapsto> ''18.2.0''] reactRule \<and>
   match inOrder (stackMatcher [''react'' \<mapsto> ''18.2.0'']) (Suc (Suc (Suc 0)))
     = Some (Inr [nextRule, reactRule])"
proof -
  have "match inOrder (stackMatcher [''react'' \<mapsto> '''']) (Suc (Suc (Suc 0))) = Some (Inr [])"
    by (simp add: match_def stack_defs search_defs eliminate_def decide_def)
  moreover have "match inOrder (stackMatcher [''react'' \<mapsto> ''18.2.0'']) (Suc (Suc (Suc 0)))
     = Some (Inr [nextRule, reactRule])"
    by (simp add: match_def stack_defs search_defs eliminate_def sweep.simps decide_def)
  moreover have "\<not> depsMatch [''react'' \<mapsto> ''''] reactRule"
    "depsMatch [''react'' \<mapsto> ''18.2.0''] reactRule"
    by (simp_all add: depsMatch_def stack_defs)
  ultimately show ?thesis
    using stackMatcher_built by simp
qed

text \<open>
  Claim C2 as stated, for every rule set, fails on rule sets that are not well formed.
  With a second rule named \<^verbatim>\<open>react\<close>, the dependency predicate of \<open>reactRule\<close> is false
  and both chains of the search contain its descendant \<open>nextRule\<close>. With a rule that has
  the name of the runtime and a false dependency predicate, the result of \<open>match\<close>
  contains a framework whose parent is that name.
\<close>

theorem ill_formed_rules_defeat_pruning_counterexample:
  "newFrameworkMatcher ''nodejs'' stackFiles dupRules Map.empty = Inr dupMatcher \<and>
   reactRule \<in> set dupRules \<and>
   \<not> depsMatch Map.empty reactRule \<and>
   descends dupRules nextRule reactRule \<and>
   matchHelper inOrder dupMatcher (Suc (Suc (Suc 0))) ''nodejs'' =
     Some (Inr [[nextRule, plainFramework ''react'' ''nodejs''],
                [nextRule, plainFramework ''react'' ''nodejs'']]) \<and>
   nextRule \<in> set [nextRule, plainFramework ''react'' ''nodejs''] \<and>
   newFrameworkMatcher ''nodejs'' stackFiles clashRules Map.empty = Inr clashMatcher \<and>
   hd clashRules \<in> set clashRules \<and>
   \<not> depsMatch Map.empty (hd clashRules) \<and>
   descends clashRules (plainFramework ''express'' ''nodejs'') (hd clashRules) \<and>
   matchHelper inOrder clashMatcher (Suc (Suc 0)) ''nodejs'' =
     Some (Inr [[plainFramework ''express'' ''nodejs'']]) \<and>
   match inOrder clashMatcher (Suc (Suc 0)) = Some (Inr [plainFramework ''express'' ''nodejs''])"
proof -
  have 1: "newFrameworkMatcher ''nodejs'' stackFiles dupRules Map.empty = Inr dupMatcher"
    by (simp add: dupMatcher_def dupRules_def stack_defs)
  have 2: "\<not> depsMatch Map.empty reactRule"
    by (simp add: depsMatch_def stack_defs)
  have 3: "descends dupRules nextRule reactRule"
    by (rule descends.child) (simp_all add: dupRules_def stack_defs)
  have 4: "matchHelper inOrder dupMatcher (Suc (Suc (Suc 0))) ''nodejs'' =
     Some (Inr [[nextRule, plainFramework ''react'' ''nodejs''],
                [nextRule, plainFramework ''react'' ''nodejs'']])"
    by (simp add: dupMatcher_def dupRules_def stack_defs search_defs)
  have 5: "newFrameworkMatcher ''nodejs'' stackFiles clashRules Map.empty = Inr clashMatcher"
    by (simp add: clashMatcher_def clashRules_def stack_defs)
  have 6: "\<not> depsMatch Map.empty (hd clashRules)"
    by (simp add: depsMatch_def clashRules_def stack_defs)
  have 7: "descends clashRules (plainFramework ''express'' ''nodejs'') (hd clashRules)"
    by (rule descends.child) (simp_all add: clashRules_def stack_defs)
  have 8: "matchHelper inOrder clashMatcher (Suc (Suc 0)) ''nodejs'' =
     Some (Inr [[plainFramework ''express'' ''nodejs'']])"
    by (simp add: clashMatcher_def clashRules_def stack_defs search_defs)
  have 9: "match inOrder clashMatcher (Suc (Suc 0)) = Some (Inr [plainFramework ''express'' ''nodejs''])"
    unfolding match_def
    by (simp add: clashMatcher_def clashRules_def stack_defs search_defs eliminate_def
        sweep.simps decide_def)
  from 1 2 3 4 5 6 7 8 9 show ?thesis
    by (simp add: dupRules_def clashRules_def)
qed

end
